theory Spec2Isabelle
  imports
    Main
    "HOL-Library.Sublist"
    "HOL-Library.Char_ord"
    "HOL-Library.List_Lexorder"
    "HOL-Library.Multiset"
begin

chapter \<open>release-discussion-action: the cycle calculator, the marker codec and the reconciler\<close>

text \<open>
  A shallow embedding of \<^verbatim>\<open>src/index.ts\<close>. The action reads a release event, finds or
  creates the discussion of the release's cycle (a week or a month), creates, updates or
  deletes the comment of the release, and regenerates the table of contents kept in the
  discussion body.

  The functions of \<^verbatim>\<open>src/queries.ts\<close> are the boundary of the model: each one is a
  remote operation that either throws or returns a value, and the model records every
  call; an invocation in which the store never answers is outside the model. \<^verbatim>\<open>main\<close> is
  modelled from its first statement: the module has read its inputs and found its
  credential. The built-in \<^verbatim>\<open>Date\<close>, \<^verbatim>\<open>String\<close> and \<^verbatim>\<open>RegExp\<close> operations the code uses are
  modelled after ECMA-262.
\<close>

section \<open>Dates\<close>

text \<open>
  A \<^verbatim>\<open>Date\<close> is its time value: milliseconds since 1970-01-01T00:00:00Z. The
  definitions follow ECMA-262, section 21.4.1, and keep its names. Three assumptions:
  the local time zone is UTC (the zone of the hosted runners), so that local time and
  time value coincide; every \<^verbatim>\<open>Date\<close> is valid (no \<^verbatim>\<open>NaN\<close> time value); and no result
  leaves the range of \<^verbatim>\<open>TimeClip\<close>. Time values are integers, and the quotients the code
  takes of them are below \<open>2\<^sup>5\<^sup>3\<close>, so the floating-point arithmetic of the source is exact
  and \<^verbatim>\<open>Math.floor (x / c)\<close> is \<open>x div c\<close>.
\<close>

type_synonym Date = int

definition msPerDay :: int where
  "msPerDay = 86400000"

definition Day :: "int \<Rightarrow> int" where
  "Day t = t div msPerDay"

definition TimeWithinDay :: "int \<Rightarrow> int" where
  "TimeWithinDay t = t mod msPerDay"

definition DaysInYear :: "int \<Rightarrow> int" where
  "DaysInYear y =
     (if y mod 4 \<noteq> 0 then 365
      else if y mod 100 \<noteq> 0 then 366
      else if y mod 400 \<noteq> 0 then 365
      else 366)"

definition DayFromYear :: "int \<Rightarrow> int" where
  "DayFromYear y =
     365 * (y - 1970) + (y - 1969) div 4 - (y - 1901) div 100 + (y - 1601) div 400"

text \<open>
  ECMA-262 defines \<open>YearFromTime t\<close> as the largest year whose first day is not after
  \<open>t\<close>. The executable form below estimates the year from the mean length of a
  Gregorian year and corrects the estimate by at most one; \<open>YearFromTime_bounds\<close> and
  \<open>YearFromTime_unique\<close> show that it is the year of the standard.
\<close>

definition YearFromTime :: "int \<Rightarrow> int" where
  "YearFromTime t =
     (let d = Day t;
          y = 1970 + (400 * d) div 146097
      in if d < DayFromYear y then y - 1
         else if DayFromYear (y + 1) \<le> d then y + 1
         else y)"

definition InLeapYear :: "int \<Rightarrow> int" where
  "InLeapYear t = (if DaysInYear (YearFromTime t) = 366 then 1 else 0)"

definition DayWithinYear :: "int \<Rightarrow> int" where
  "DayWithinYear t = Day t - DayFromYear (YearFromTime t)"

definition MonthFromTime :: "int \<Rightarrow> int" where
  "MonthFromTime t =
     (let d = DayWithinYear t; l = InLeapYear t
      in if d < 31 then 0
         else if d < 59 + l then 1
         else if d < 90 + l then 2
         else if d < 120 + l then 3
         else if d < 151 + l then 4
         else if d < 181 + l then 5
         else if d < 212 + l then 6
         else if d < 243 + l then 7
         else if d < 273 + l then 8
         else if d < 304 + l then 9
         else if d < 334 + l then 10
         else 11)"

definition DateFromTime :: "int \<Rightarrow> int" where
  "DateFromTime t =
     (let d = DayWithinYear t; l = InLeapYear t; m = MonthFromTime t
      in if m = 0 then d + 1
         else if m = 1 then d - 30
         else if m = 2 then d - 58 - l
         else if m = 3 then d - 89 - l
         else if m = 4 then d - 119 - l
         else if m = 5 then d - 150 - l
         else if m = 6 then d - 180 - l
         else if m = 7 then d - 211 - l
         else if m = 8 then d - 242 - l
         else if m = 9 then d - 272 - l
         else if m = 10 then d - 303 - l
         else d - 333 - l)"

definition WeekDay :: "int \<Rightarrow> int" where
  "WeekDay t = (Day t + 4) mod 7"

text \<open>
  \<open>DayFromMonth m l\<close> is the day within the year on which month \<open>m\<close> starts, \<open>l\<close> being 1
  in a leap year. \<open>MakeDay\<close> normalises the month into the year, as the standard does,
  so that month 2024 of year 1902 is September 2070.
\<close>

definition DayFromMonth :: "int \<Rightarrow> int \<Rightarrow> int" where
  "DayFromMonth m l =
     (if m = 0 then 0
      else if m = 1 then 31
      else if m = 2 then 59 + l
      else if m = 3 then 90 + l
      else if m = 4 then 120 + l
      else if m = 5 then 151 + l
      else if m = 6 then 181 + l
      else if m = 7 then 212 + l
      else if m = 8 then 243 + l
      else if m = 9 then 273 + l
      else if m = 10 then 304 + l
      else 334 + l)"

definition MakeDay :: "int \<Rightarrow> int \<Rightarrow> int \<Rightarrow> int" where
  "MakeDay year month date =
     (let ym = year + month div 12;
          mn = month mod 12;
          l = (if DaysInYear ym = 366 then 1 else 0)
      in DayFromYear ym + DayFromMonth mn l + date - 1)"

definition MakeTime :: "int \<Rightarrow> int \<Rightarrow> int \<Rightarrow> int \<Rightarrow> int" where
  "MakeTime hour minute sec ms = hour * 3600000 + minute * 60000 + sec * 1000 + ms"

definition MakeDate :: "int \<Rightarrow> int \<Rightarrow> int" where
  "MakeDate day time = day * msPerDay + time"

text \<open>
  \<^verbatim>\<open>new Date(year, month, date)\<close>: a year from 0 to 99 means 1900 + year. The methods
  \<^verbatim>\<open>getTime\<close>, \<^verbatim>\<open>getFullYear\<close>, \<^verbatim>\<open>getMonth\<close>, \<^verbatim>\<open>getDate\<close>, \<^verbatim>\<open>getDay\<close> and \<^verbatim>\<open>setDate\<close> follow;
  \<open>setDate\<close> returns the mutated object.
\<close>

definition newDate :: "int \<Rightarrow> int \<Rightarrow> int \<Rightarrow> Date" where
  "newDate year month date =
     (let yr = (if 0 \<le> year \<and> year \<le> 99 then 1900 + year else year)
      in MakeDate (MakeDay yr month date) (MakeTime 0 0 0 0))"

definition getTime :: "Date \<Rightarrow> int" where
  "getTime d = d"

definition getFullYear :: "Date \<Rightarrow> int" where
  "getFullYear d = YearFromTime d"

definition getMonth :: "Date \<Rightarrow> int" where
  "getMonth d = MonthFromTime d"

definition getDate :: "Date \<Rightarrow> int" where
  "getDate d = DateFromTime d"

definition getDay :: "Date \<Rightarrow> int" where
  "getDay d = WeekDay d"

definition setDate :: "Date \<Rightarrow> int \<Rightarrow> Date" where
  "setDate d dt = MakeDate (MakeDay (YearFromTime d) (MonthFromTime d) dt) (TimeWithinDay d)"

section \<open>The cycle calculator\<close>

text \<open>
  \<^verbatim>\<open>getWeekNumber\<close>: the number of days since January 1 of the date's year, counted from
  1, divided by 7 and rounded up.
\<close>

definition getWeekNumber :: "Date \<Rightarrow> int" where
  "getWeekNumber date =
     (let startDate = newDate (getFullYear date) 0 1;
          days = (getTime date - getTime startDate) div msPerDay + 1
      in - ((- days) div 7))"

text \<open>
  \<^verbatim>\<open>getFirstDayOfWeek\<close>: January 1 is moved by \<open>dayNum - 1\<close> days towards the past unless it
  is a Monday, then \<open>(weekNumber - 1) * 7\<close> days are added.
\<close>

definition getFirstDayOfWeek :: "int \<Rightarrow> int \<Rightarrow> Date" where
  "getFirstDayOfWeek weekNumber year =
     (let startDate = newDate year 0 1;
          dayNum = getDay startDate;
          diff = (weekNumber - 1) * 7;
          startDate = (if dayNum \<noteq> 1
                       then setDate startDate (getDate startDate - (dayNum - 1))
                       else startDate)
      in setDate startDate (getDate startDate + diff))"

definition getFirstDayOfMonth :: "int \<Rightarrow> int \<Rightarrow> Date" where
  "getFirstDayOfMonth month year = newDate year month 1"

datatype cycle = Week | Month

text \<open>
  The constants \<^verbatim>\<open>from\<close> and \<^verbatim>\<open>to\<close> of \<^verbatim>\<open>main\<close>. The month branch passes the year where
  \<^verbatim>\<open>getFirstDayOfMonth\<close> expects the month, and the month where it expects the year; the
  model keeps the call as it is written.
\<close>

definition cycle_from :: "cycle \<Rightarrow> Date \<Rightarrow> Date" where
  "cycle_from cycleLength releaseDate =
     (case cycleLength of
        Week \<Rightarrow> getFirstDayOfWeek (getWeekNumber releaseDate) (getFullYear releaseDate)
      | Month \<Rightarrow> getFirstDayOfMonth (getFullYear releaseDate) (getMonth releaseDate))"

definition cycle_to :: "cycle \<Rightarrow> Date \<Rightarrow> Date" where
  "cycle_to cycleLength releaseDate =
     (case cycleLength of
        Week \<Rightarrow> getFirstDayOfWeek (getWeekNumber releaseDate + 1) (getFullYear releaseDate)
      | Month \<Rightarrow> getFirstDayOfMonth (getFullYear releaseDate) (getMonth releaseDate + 1))"

section \<open>Strings and regular expressions\<close>

text \<open>
  A string is a list of characters. A \<^typ>\<open>char\<close> has eight bits, so the model covers the
  strings whose code units are below 256; of the white space and line terminators of
  ECMA-262 these are the seven characters and the two characters below. \<^verbatim>\<open>trim\<close> and the
  class \<^verbatim>\<open>\s\<close> remove white space and line terminators alike; the class \<^verbatim>\<open>.\<close> is every
  character but a line terminator, and \<^verbatim>\<open>[\s\S]\<close> is every character.
\<close>

definition isLineTerminator :: "char \<Rightarrow> bool" where
  "isLineTerminator c = (c = CHR 0x0A \<or> c = CHR 0x0D)"

definition isWhiteSpace :: "char \<Rightarrow> bool" where
  "isWhiteSpace c =
     (c = CHR 0x09 \<or> c = CHR 0x0A \<or> c = CHR 0x0B \<or> c = CHR 0x0C \<or> c = CHR 0x0D
      \<or> c = CHR 0x20 \<or> c = CHR 0xA0)"

definition isDot :: "char \<Rightarrow> bool" where
  "isDot c = (\<not> isLineTerminator c)"

definition isAny :: "char \<Rightarrow> bool" where
  "isAny c = True"

definition isDigit :: "char \<Rightarrow> bool" where
  "isDigit c = (c \<in> set ''0123456789'')"

definition digitValue :: "char \<Rightarrow> nat" where
  "digitValue c = of_char c - 48"

definition trim :: "string \<Rightarrow> string" where
  "trim s = rev (dropWhile isWhiteSpace (rev (dropWhile isWhiteSpace s)))"

text \<open>\<^verbatim>\<open>s.replace(/\s/g, '')\<close>.\<close>

definition stripWhiteSpace :: "string \<Rightarrow> string" where
  "stripWhiteSpace s = filter (\<lambda>c. \<not> isWhiteSpace c) s"

text \<open>\<^verbatim>\<open>s.includes(pat)\<close>: \<open>pat\<close> begins at some index of \<open>s\<close>.\<close>

fun includes_string :: "string \<Rightarrow> string \<Rightarrow> bool" where
  "includes_string [] pat = (pat = [])"
| "includes_string (c # cs) pat = (prefix pat (c # cs) \<or> includes_string cs pat)"

fun join :: "string \<Rightarrow> string list \<Rightarrow> string" where
  "join sep [] = []"
| "join sep [x] = x"
| "join sep (x # y # ys) = x @ sep @ join sep (y # ys)"

text \<open>\<^verbatim>\<open>s.split(sep)\<close> for a separator of one character.\<close>

fun split :: "char \<Rightarrow> string \<Rightarrow> string list" where
  "split sep [] = [[]]"
| "split sep (c # cs) =
     (if c = sep then [] # split sep cs
      else (case split sep cs of
              [] \<Rightarrow> [[c]]
            | x # xs \<Rightarrow> (c # x) # xs))"

text \<open>The decimal numeral of an integer, as a template literal prints it.\<close>

fun digits :: "nat \<Rightarrow> string" where
  "digits n =
     (if n < 10 then [char_of (48 + n)]
      else digits (n div 10) @ [char_of (48 + n mod 10)])"

declare digits.simps [simp del]

definition toString :: "int \<Rightarrow> string" where
  "toString i = (if i < 0 then CHR ''-'' # digits (nat (- i)) else digits (nat i))"

subsection \<open>Matching\<close>

text \<open>
  The two regular expressions of the source are sequences of literals and lazy
  repetitions of a character class. A matcher takes the rest of the input and returns
  what it captured, or \<open>None\<close>; backtracking is the order of the attempts. \<open>lit p k\<close>
  reads the literal \<open>p\<close> and goes on with \<open>k\<close>. \<open>lazyStar cls k\<close> first tries \<open>k\<close> on the
  present input and, if \<open>k\<close> fails, reads one more character of the class \<open>cls\<close>: the
  shortest repetition after which the rest of the pattern matches. \<open>exec m\<close> tries \<open>m\<close>
  at index 0, 1, 2 and so on, and returns the text before the first match with it.
\<close>

definition lit :: "string \<Rightarrow> (string \<Rightarrow> 'a option) \<Rightarrow> string \<Rightarrow> 'a option" where
  "lit p k s = (if prefix p s then k (drop (length p) s) else None)"

fun lazyStar ::
  "(char \<Rightarrow> bool) \<Rightarrow> (string \<Rightarrow> 'a option) \<Rightarrow> string \<Rightarrow> string \<Rightarrow> (string \<times> 'a) option" where
  "lazyStar cls k acc [] = (case k [] of Some r \<Rightarrow> Some (rev acc, r) | None \<Rightarrow> None)"
| "lazyStar cls k acc (c # cs) =
     (case k (c # cs) of
        Some r \<Rightarrow> Some (rev acc, r)
      | None \<Rightarrow> if cls c then lazyStar cls k (c # acc) cs else None)"

fun exec :: "(string \<Rightarrow> 'a option) \<Rightarrow> string \<Rightarrow> string \<Rightarrow> (string \<times> 'a) option" where
  "exec m pre [] = (case m [] of Some r \<Rightarrow> Some (rev pre, r) | None \<Rightarrow> None)"
| "exec m pre (c # cs) =
     (case m (c # cs) of
        Some r \<Rightarrow> Some (rev pre, r)
      | None \<Rightarrow> exec m (c # pre) cs)"

text \<open>
  \<^verbatim>\<open>/<!-- release-item:(.*?)@(.*?) -->/\<close>: the two groups, as \<^verbatim>\<open>body.match\<close> returns them
  in \<^verbatim>\<open>match[1]\<close> and \<^verbatim>\<open>match[2]\<close>.
\<close>

definition releaseItemRegex :: "string \<Rightarrow> (string \<times> string) option" where
  "releaseItemRegex body =
     (case exec (lit ''<!-- release-item:''
                  (lazyStar isDot (lit ''@''
                    (lazyStar isDot (lit '' -->'' Some) [])) [])) [] body of
        None \<Rightarrow> None
      | Some (preceding, g1, g2, following) \<Rightarrow> Some (g1, g2))"

definition START_TOC :: string where
  "START_TOC = ''<!-- START-RELEASE-TOC -->''"

definition END_TOC :: string where
  "END_TOC = ''<!-- END-RELEASE-TOC -->''"

text \<open>
  \<^verbatim>\<open>/(<!-- START-RELEASE-TOC -->)[\s\S]*?(<!-- END-RELEASE-TOC -->)/\<close>: the text before the
  match, the text the lazy repetition read, and the text after the match. The two
  groups are the two literals.
\<close>

definition tocRegex :: "string \<Rightarrow> (string \<times> string \<times> string) option" where
  "tocRegex body = exec (lit START_TOC (lazyStar isAny (lit END_TOC Some) [])) [] body"

subsection \<open>Replacement patterns\<close>

text \<open>
  The second argument of \<^verbatim>\<open>replace\<close> is a replacement pattern, expanded by
  \<open>GetSubstitution\<close> of ECMA-262: \<^verbatim>\<open>$$\<close> is a dollar sign, \<^verbatim>\<open>$&\<close> the matched text,
  \<^verbatim>\<open>$`\<close> the text before the match, \<^verbatim>\<open>$'\<close> the text after it, and \<^verbatim>\<open>$n\<close> or \<^verbatim>\<open>$nn\<close> the
  group of that number if there is one; two digits that number no group are read as
  one digit and a literal digit. Anything else stands for itself; the patterns of the
  source have no named groups, so \<^verbatim>\<open>$<\<close> does too.
\<close>

definition capture :: "string list \<Rightarrow> nat \<Rightarrow> string option" where
  "capture captures n =
     (if 1 \<le> n \<and> n \<le> length captures then Some (captures ! (n - 1)) else None)"

fun GetSubstitution ::
  "string \<Rightarrow> string \<Rightarrow> string \<Rightarrow> string list \<Rightarrow> string \<Rightarrow> string" where
  "GetSubstitution matched preceding following captures [] = []"
| "GetSubstitution matched preceding following captures [c] = [c]"
| "GetSubstitution matched preceding following captures (c # d # ds) =
     (if c \<noteq> CHR ''$'' then c # GetSubstitution matched preceding following captures (d # ds)
      else if d = CHR ''$'' then CHR ''$'' # GetSubstitution matched preceding following captures ds
      else if d = CHR ''&'' then matched @ GetSubstitution matched preceding following captures ds
      else if d = CHR 0x60 then preceding @ GetSubstitution matched preceding following captures ds
      else if d = CHR 0x27 then following @ GetSubstitution matched preceding following captures ds
      else if isDigit d then
        (case ds of
           [] \<Rightarrow>
             (case capture captures (digitValue d) of
                Some g \<Rightarrow> g
              | None \<Rightarrow> [c, d])
         | e # es \<Rightarrow>
             if isDigit e \<and> 10 * digitValue d + digitValue e \<le> length captures then
               (case capture captures (10 * digitValue d + digitValue e) of
                  Some g \<Rightarrow> g @ GetSubstitution matched preceding following captures es
                | None \<Rightarrow> c # d # e # GetSubstitution matched preceding following captures es)
             else
               (case capture captures (digitValue d) of
                  Some g \<Rightarrow> g @ GetSubstitution matched preceding following captures (e # es)
                | None \<Rightarrow> c # d # GetSubstitution matched preceding following captures (e # es)))
      else c # GetSubstitution matched preceding following captures (d # ds))"

text \<open>
  \<^verbatim>\<open>body.replace(/(<!-- START-RELEASE-TOC -->)[\s\S]*?(<!-- END-RELEASE-TOC -->)/,
  `$1\n${tocMarkdown}\n$2`)\<close>: the first match is replaced by the expansion of the
  pattern, into which the table of contents has been pasted; without a match the body is
  returned as it is.
\<close>

definition replaceTocRegion :: "string \<Rightarrow> string \<Rightarrow> string" where
  "replaceTocRegion body tocMarkdown =
     (case tocRegex body of
        None \<Rightarrow> body
      | Some (preceding, interior, following) \<Rightarrow>
          preceding
          @ GetSubstitution (START_TOC @ interior @ END_TOC) preceding following [START_TOC, END_TOC]
              (''$1\<newline>'' @ tocMarkdown @ ''\<newline>$2'')
          @ following)"


text \<open>
  The regular expression of the table of contents has two groups. With two groups these
  are the patterns that stand for something other than themselves: \<^verbatim>\<open>$$\<close>, \<^verbatim>\<open>$&\<close>,
  \<^verbatim>\<open>$`\<close>, \<^verbatim>\<open>$'\<close>, \<^verbatim>\<open>$1\<close>, \<^verbatim>\<open>$2\<close>, \<^verbatim>\<open>$01\<close> and \<^verbatim>\<open>$02\<close>; every other dollar sign is
  copied with what follows it. \<open>startsPattern s\<close>: \<open>s\<close> begins with one of them.
  \<open>includesPattern s\<close>: one of them begins at some index of \<open>s\<close>.
\<close>

definition replacementPatterns :: "string list" where
  "replacementPatterns =
     [''$$'', ''$&'', [CHR ''$'', CHR 0x60], [CHR ''$'', CHR 0x27], ''$1'', ''$2'',
      ''$01'', ''$02'']"

definition startsPattern :: "string \<Rightarrow> bool" where
  "startsPattern s = (\<exists>p\<in>set replacementPatterns. prefix p s)"

fun includesPattern :: "string \<Rightarrow> bool" where
  "includesPattern [] = False"
| "includesPattern (c # cs) = (startsPattern (c # cs) \<or> includesPattern cs)"
section \<open>Cycle identifiers and names\<close>

text \<open>
  \<^verbatim>\<open>toISOString\<close> prints the years 0 to 9999 with four digits and every other year with
  a sign and six digits; \<^verbatim>\<open>getCycleId\<close> keeps the first seven characters, for a year of
  four digits the year and the month. The long name of a month comes from the locale of
  the runtime and is a parameter, \<open>monthLong\<close>.
\<close>

definition pad :: "nat \<Rightarrow> string \<Rightarrow> string" where
  "pad n s = replicate (n - length s) CHR ''0'' @ s"

definition isoYear :: "int \<Rightarrow> string" where
  "isoYear y =
     (if 0 \<le> y \<and> y \<le> 9999 then pad 4 (toString y)
      else if y < 0 then CHR ''-'' # pad 6 (toString (- y))
      else CHR ''+'' # pad 6 (toString y))"

definition toISOString :: "Date \<Rightarrow> string" where
  "toISOString d =
     isoYear (YearFromTime d) @ ''-'' @ pad 2 (toString (MonthFromTime d + 1))
     @ ''-'' @ pad 2 (toString (DateFromTime d))
     @ ''T'' @ pad 2 (toString (TimeWithinDay d div 3600000))
     @ '':'' @ pad 2 (toString (TimeWithinDay d div 60000 mod 60))
     @ '':'' @ pad 2 (toString (TimeWithinDay d div 1000 mod 60))
     @ ''.'' @ pad 3 (toString (TimeWithinDay d mod 1000)) @ ''Z''"

definition getCycleId :: "Date \<Rightarrow> cycle \<Rightarrow> string" where
  "getCycleId date cycleLength =
     (case cycleLength of
        Week \<Rightarrow> toString (getFullYear date) @ ''W'' @ toString (getWeekNumber date)
      | Month \<Rightarrow> take 7 (toISOString (newDate (getFullYear date) (getMonth date) 1)))"

definition getCycleName :: "(int \<Rightarrow> string) \<Rightarrow> Date \<Rightarrow> cycle \<Rightarrow> string" where
  "getCycleName monthLong date cycleLength =
     (case cycleLength of
        Week \<Rightarrow> toString (getFullYear date) @ '' Week '' @ toString (getWeekNumber date)
      | Month \<Rightarrow> toString (getFullYear date) @ '' '' @ monthLong (getMonth date))"

section \<open>The release event, the inputs and the remote store\<close>

record release =
  release_name :: string
  tag_name :: string
  release_body :: string
  html_url :: string
  draft :: bool
  published_at :: Date

text \<open>
  The payload: \<^verbatim>\<open>payload.action\<close>, \<^verbatim>\<open>payload.release\<close> and
  \<^verbatim>\<open>Boolean(payload.repository?.private)\<close>.
\<close>

record payload =
  action :: string
  release :: release
  repository_private :: bool

text \<open>The inputs \<^verbatim>\<open>repo\<close>, \<^verbatim>\<open>category\<close> and \<^verbatim>\<open>cycle\<close>, and the month names of the locale.\<close>

record inputs =
  input_repo :: string
  input_category :: string
  input_cycle :: string
  monthLong :: "int \<Rightarrow> string"

record category =
  category_id :: string
  category_name :: string
  category_slug :: string

record repository =
  repository_id :: string
  discussionCategory :: "category option"

record discussion =
  discussion_id :: string
  discussion_title :: string
  discussion_body :: string
  discussion_url :: string

record comment =
  comment_id :: string
  comment_body :: string
  comment_url :: string

text \<open>A thrown error, with the message that \<^verbatim>\<open>catch\<close> passes to \<^verbatim>\<open>core.setFailed\<close>.\<close>

datatype error = Error (message: string)

text \<open>
  The remote store as \<^verbatim>\<open>queries.ts\<close> presents it: for every function the outcome of a
  call with given arguments, an error thrown or the value returned. The values that
  \<^verbatim>\<open>main\<close> does not read (of the deletion and of the update of the discussion) are left
  out, and \<open>getDiscussionById\<close> returns the comments, which is all that \<^verbatim>\<open>main\<close> takes
  from it. A \<open>call\<close> records a call with its arguments, in the order of the parameters
  below.
\<close>

record remote =
  getRepository :: "string \<Rightarrow> string option \<Rightarrow> string \<Rightarrow> error + repository"
  searchDiscussions :: "string \<Rightarrow> string \<Rightarrow> Date \<Rightarrow> Date \<Rightarrow> string \<Rightarrow> error + discussion list"
  createDiscussion :: "string \<Rightarrow> string \<Rightarrow> string \<Rightarrow> string \<Rightarrow> error + discussion"
  getDiscussionById :: "string \<Rightarrow> error + comment list"
  deleteDiscussionComment :: "string \<Rightarrow> error + unit"
  updateDiscussionComment :: "string \<Rightarrow> string \<Rightarrow> error + comment"
  addDiscussionComment :: "string \<Rightarrow> string \<Rightarrow> error + comment"
  updateDiscussion :: "string \<Rightarrow> string \<Rightarrow> error + unit"

datatype call =
    GetRepository string "string option" string
  | SearchDiscussions string string Date Date string
  | CreateDiscussion string string string string
  | GetDiscussionById string
  | DeleteDiscussionComment string
  | UpdateDiscussionComment string string
  | AddDiscussionComment string string
  | UpdateDiscussion string string

text \<open>
  How an invocation ends: \<^verbatim>\<open>main\<close> returns; or an error was caught and reported with
  \<^verbatim>\<open>core.setFailed\<close>; or the category was not found, which is reported and followed by
  \<^verbatim>\<open>process.exit(1)\<close>. Log lines are not part of the model.
\<close>

datatype outcome = Succeeded | Failed string | Exited string

section \<open>The table of contents\<close>

text \<open>
  The object \<^verbatim>\<open>releases\<close>: its own properties in the order of their creation, each a
  name with the list of the releases of that name. \<^verbatim>\<open>releases\<close> is created by \<^verbatim>\<open>{}\<close> and
  inherits from \<^verbatim>\<open>Object.prototype\<close>: for a name that is not an own property but is a
  property of the prototype, \<^verbatim>\<open>releases[name]\<close> is a function or the prototype itself,
  \<^verbatim>\<open>??=\<close> assigns nothing, the value has no \<^verbatim>\<open>push\<close>, and the call throws a \<^verbatim>\<open>TypeError\<close>.
\<close>

record releaseItem =
  item_id :: string
  item_name :: string
  item_version :: string
  item_url :: string

definition ObjectPrototypeNames :: "string list" where
  "ObjectPrototypeNames =
     [''constructor'', ''__defineGetter__'', ''__defineSetter__'', ''hasOwnProperty'',
      ''__lookupGetter__'', ''__lookupSetter__'', ''isPrototypeOf'',
      ''propertyIsEnumerable'', ''toString'', ''valueOf'', ''__proto__'',
      ''toLocaleString'']"

definition pushRelease ::
  "(string \<times> releaseItem list) list \<Rightarrow> string \<Rightarrow> releaseItem
   \<Rightarrow> error + (string \<times> releaseItem list) list" where
  "pushRelease releases name item =
     (case map_of releases name of
        Some items \<Rightarrow>
          Inr (map (\<lambda>(k, v). if k = name then (k, v @ [item]) else (k, v)) releases)
      | None \<Rightarrow>
          if name \<in> set ObjectPrototypeNames
          then Inl (Error ''releases[name].push is not a function'')
          else Inr (releases @ [(name, [item])]))"

text \<open>The loop over the comments: a comment without a marker is skipped.\<close>

fun collectReleases ::
  "comment list \<Rightarrow> (string \<times> releaseItem list) list
   \<Rightarrow> error + (string \<times> releaseItem list) list" where
  "collectReleases [] releases = Inr releases"
| "collectReleases (c # comments) releases =
     (case releaseItemRegex (comment_body c) of
        None \<Rightarrow> collectReleases comments releases
      | Some (g1, g2) \<Rightarrow>
          (case pushRelease releases (trim g1)
                  \<lparr>item_id = comment_id c, item_name = trim g1,
                   item_version = trim g2, item_url = comment_url c\<rparr> of
             Inl e \<Rightarrow> Inl e
           | Inr releases' \<Rightarrow> collectReleases comments releases'))"

definition bullet :: "releaseItem \<Rightarrow> string" where
  "bullet r = ''- [**'' @ item_name r @ ''**: '' @ item_version r @ ''](''
              @ item_url r @ '')''"

text \<open>
  \<^verbatim>\<open>Object.keys(releases).sort()\<close>: the names are distinct and \<^verbatim>\<open>sort\<close> compares them as
  sequences of code units, so the order in which \<^verbatim>\<open>Object.keys\<close> lists them does not
  matter. Every name listed is an own property; the branch \<open>None\<close> is never taken.
\<close>

definition tocLines :: "(string \<times> releaseItem list) list \<Rightarrow> string list" where
  "tocLines releases =
     ''**Releases**\<newline>''
     # concat (map (\<lambda>name. case map_of releases name of
                               Some items \<Rightarrow> map bullet items
                             | None \<Rightarrow> [])
                 (sort (map fst releases)))"

definition buildToc :: "comment list \<Rightarrow> error + string" where
  "buildToc comments =
     (case collectReleases comments [] of
        Inl e \<Rightarrow> Inl e
      | Inr releases \<Rightarrow> Inr (trim (join ''\<newline>'' (tocLines releases))))"

section \<open>The reconciler\<close>

text \<open>
  \<^verbatim>\<open>main\<close>, in four parts; every part returns how the invocation ended and the calls
  made, in their order. \<open>reconcileToc\<close> is the end of \<^verbatim>\<open>main\<close>, from the declaration
  of \<^verbatim>\<open>releases\<close>: it builds the table of contents, splices it into the body and updates
  the discussion if the two bodies differ once white space is removed.
\<close>

definition reconcileToc ::
  "remote \<Rightarrow> discussion \<Rightarrow> comment list \<Rightarrow> call list \<Rightarrow> outcome \<times> call list" where
  "reconcileToc rs d comments calls =
     (case buildToc comments of
        Inl e \<Rightarrow> (Failed (message e), calls)
      | Inr tocMarkdown \<Rightarrow>
          let newBody = replaceTocRegion (discussion_body d) tocMarkdown
          in if stripWhiteSpace newBody \<noteq> stripWhiteSpace (discussion_body d)
             then (case updateDiscussion rs (discussion_id d) newBody of
                     Inl e \<Rightarrow>
                       (Failed (message e), calls @ [UpdateDiscussion (discussion_id d) newBody])
                   | Inr u \<Rightarrow>
                       (Succeeded, calls @ [UpdateDiscussion (discussion_id d) newBody]))
             else (Succeeded, calls))"

text \<open>
  The four branches on \<^verbatim>\<open>isDeleteRequest\<close> and \<^verbatim>\<open>comment\<close>: the comment list after the
  branch, with the call the branch made, or the error that call threw. The comment
  returned by the update replaces the comments that have its identifier.
\<close>

definition mutateComments ::
  "remote \<Rightarrow> bool \<Rightarrow> comment option \<Rightarrow> comment list \<Rightarrow> string \<Rightarrow> string
   \<Rightarrow> (error + comment list) \<times> call list" where
  "mutateComments rs isDeleteRequest found comments discussionId body =
     (case found of
        Some c \<Rightarrow>
          if isDeleteRequest then
            (case deleteDiscussionComment rs (comment_id c) of
               Inl e \<Rightarrow> (Inl e, [DeleteDiscussionComment (comment_id c)])
             | Inr u \<Rightarrow>
                 (Inr (filter (\<lambda>x. comment_id x \<noteq> comment_id c) comments),
                  [DeleteDiscussionComment (comment_id c)]))
          else
            (case updateDiscussionComment rs (comment_id c) body of
               Inl e \<Rightarrow> (Inl e, [UpdateDiscussionComment (comment_id c) body])
             | Inr c' \<Rightarrow>
                 (Inr (map (\<lambda>x. if comment_id x = comment_id c' then c' else x) comments),
                  [UpdateDiscussionComment (comment_id c) body]))
      | None \<Rightarrow>
          if isDeleteRequest then (Inr comments, [])
          else
            (case addDiscussionComment rs discussionId body of
               Inl e \<Rightarrow> (Inl e, [AddDiscussionComment discussionId body])
             | Inr c' \<Rightarrow> (Inr (comments @ [c']), [AddDiscussionComment discussionId body])))"

definition releaseIdentifier :: "string \<Rightarrow> string \<Rightarrow> string" where
  "releaseIdentifier name version = ''<!-- release-item:'' @ name @ ''@'' @ version @ '' -->''"

definition commentBody :: "payload \<Rightarrow> string" where
  "commentBody p =
     (let r = release p;
          releaseName = release_name r @ ''@'' @ tag_name r;
          title = (if repository_private p then releaseName
                   else ''['' @ releaseName @ '']('' @ html_url r @ '')'')
      in releaseIdentifier (release_name r) (tag_name r)
         @ ''\<newline>\<newline>### '' @ title @ ''\<newline>\<newline>'' @ release_body r)"

text \<open>
  From the discussion to the end: the comments are fetched once, the comment of the
  release is looked up by its marker, the branch is taken, and the table of contents is
  reconciled with the list the branch left.
\<close>

definition resolveComment ::
  "remote \<Rightarrow> payload \<Rightarrow> discussion \<Rightarrow> call list \<Rightarrow> outcome \<times> call list" where
  "resolveComment rs p d calls =
     (let r = release p;
          isDeleteRequest = (action p = ''deleted'');
          marker = releaseIdentifier (release_name r) (tag_name r);
          calls1 = calls @ [GetDiscussionById (discussion_id d)]
      in (case getDiscussionById rs (discussion_id d) of
            Inl e \<Rightarrow> (Failed (message e), calls1)
          | Inr comments \<Rightarrow>
              (case mutateComments rs isDeleteRequest
                      (find (\<lambda>node. includes_string (comment_body node) marker) comments)
                      comments (discussion_id d) (commentBody p) of
                 (Inl e, cs) \<Rightarrow> (Failed (message e), calls1 @ cs)
               | (Inr comments', cs) \<Rightarrow> reconcileToc rs d comments' (calls1 @ cs))))"

definition cycleIdentifier :: "string \<Rightarrow> string" where
  "cycleIdentifier cycleId = ''<!-- release-cycle:'' @ cycleId @ '' -->''"

definition newDiscussionBody :: "string \<Rightarrow> string" where
  "newDiscussionBody marker =
     marker @ ''\<newline>\<newline><!-- START-RELEASE-TOC -->\<newline><!-- END-RELEASE-TOC -->''"

text \<open>
  The discussion of the cycle: the first search result whose body includes the cycle
  marker, or else a new discussion.
\<close>

definition resolveDiscussion ::
  "remote \<Rightarrow> payload \<Rightarrow> repository \<Rightarrow> category \<Rightarrow> string \<Rightarrow> string
   \<Rightarrow> discussion list \<Rightarrow> call list \<Rightarrow> outcome \<times> call list" where
  "resolveDiscussion rs p repo cat marker cycleName searchResult calls =
     (case find (\<lambda>node. includes_string (discussion_body node) marker) searchResult of
        Some d \<Rightarrow> resolveComment rs p d calls
      | None \<Rightarrow>
          let title = ''Releases - '' @ cycleName;
              body = newDiscussionBody marker;
              calls1 = calls @ [CreateDiscussion (repository_id repo) (category_id cat) title body]
          in (case createDiscussion rs (repository_id repo) (category_id cat) title body of
                Inl e \<Rightarrow> (Failed (message e), calls1)
              | Inr d \<Rightarrow> resolveComment rs p d calls1))"

text \<open>
  The module constants \<^verbatim>\<open>owner\<close>, \<^verbatim>\<open>repo\<close> and \<^verbatim>\<open>cycleLength\<close>. \<^verbatim>\<open>split\<close> returns at least
  one string, the owner; \<^verbatim>\<open>repo\<close> is undefined when the input has no slash.
\<close>

definition owner :: "inputs \<Rightarrow> string" where
  "owner i = (case split CHR ''/'' (input_repo i) of x # xs \<Rightarrow> x | [] \<Rightarrow> [])"

definition repo :: "inputs \<Rightarrow> string option" where
  "repo i = (case split CHR ''/'' (input_repo i) of x # y # ys \<Rightarrow> Some y | _ \<Rightarrow> None)"

definition cycleLength :: "inputs \<Rightarrow> cycle" where
  "cycleLength i = (if input_cycle i = ''month'' then Month else Week)"

definition main :: "inputs \<Rightarrow> remote \<Rightarrow> payload \<Rightarrow> outcome \<times> call list" where
  "main i rs p =
     (let releaseDate = published_at (release p)
      in if draft (release p) then (Succeeded, [])
         else
           let calls1 = [GetRepository (owner i) (repo i) (input_category i)]
           in (case getRepository rs (owner i) (repo i) (input_category i) of
                 Inl e \<Rightarrow> (Failed (message e), calls1)
               | Inr repository \<Rightarrow>
                   (case discussionCategory repository of
                      None \<Rightarrow>
                        (Exited (''Category \"'' @ input_category i
                                 @ ''\" not found, please ensure the category slug is correct.''),
                         calls1)
                    | Some cat \<Rightarrow>
                        let marker = cycleIdentifier (getCycleId releaseDate (cycleLength i));
                            cycleName = getCycleName (monthLong i) releaseDate (cycleLength i);
                            from = cycle_from (cycleLength i) releaseDate;
                            to = cycle_to (cycleLength i) releaseDate;
                            calls2 = calls1 @ [SearchDiscussions (input_repo i)
                                                 (category_name cat) from to marker]
                        in (case searchDiscussions rs (input_repo i) (category_name cat)
                                   from to marker of
                              Inl e \<Rightarrow> (Failed (message e), calls2)
                            | Inr searchResult \<Rightarrow>
                                resolveDiscussion rs p repository cat marker cycleName
                                  searchResult calls2))))"

section \<open>The table of contents as the specification words it\<close>

text \<open>
  The two definitions of this section follow the specification, not the code, and are
  what the code is compared with. \<open>markedReleases\<close>: one release for every comment whose
  body holds a release marker, in the order of the comments, with the name and the
  version of the marker trimmed. \<open>renderTocBlock\<close>: the header line, then one bullet
  for every release, sorted by name, releases of one name in their original order
  (\<open>sort_key\<close> is a stable insertion sort); an empty line separates the header from
  the bullets.
\<close>

definition markedRelease :: "comment \<Rightarrow> releaseItem option" where
  "markedRelease c =
     (case releaseItemRegex (comment_body c) of
        None \<Rightarrow> None
      | Some (g1, g2) \<Rightarrow>
          Some \<lparr>item_id = comment_id c, item_name = trim g1,
                item_version = trim g2, item_url = comment_url c\<rparr>)"

definition markedReleases :: "comment list \<Rightarrow> releaseItem list" where
  "markedReleases comments = List.map_filter markedRelease comments"

definition renderTocBlock :: "releaseItem list \<Rightarrow> string" where
  "renderTocBlock items =
     (if items = [] then ''**Releases**''
      else ''**Releases**\<newline>\<newline>''
           @ join ''\<newline>'' (map bullet (sort_key item_name items)))"

text \<open>
  The invariant of the loop that fills \<^verbatim>\<open>releases\<close>: after the releases \<open>es\<close> have been
  pushed, the names of the object are the names of \<open>es\<close>, each once, and every name
  holds the releases of that name in the order of \<open>es\<close>.
\<close>

definition grouped :: "(string \<times> releaseItem list) list \<Rightarrow> releaseItem list \<Rightarrow> bool" where
  "grouped releases es =
     (distinct (map fst releases)
      \<and> set (map fst releases) = item_name ` set es
      \<and> (\<forall>k v. (k, v) \<in> set releases \<longrightarrow> v = filter (\<lambda>e. item_name e = k) es))"

section \<open>Kinds of calls\<close>

fun isCreateDiscussion :: "call \<Rightarrow> bool" where
  "isCreateDiscussion (CreateDiscussion r c t b) = True"
| "isCreateDiscussion x = False"

fun isGetDiscussionById :: "call \<Rightarrow> bool" where
  "isGetDiscussionById (GetDiscussionById d) = True"
| "isGetDiscussionById x = False"

fun isDeleteDiscussionComment :: "call \<Rightarrow> bool" where
  "isDeleteDiscussionComment (DeleteDiscussionComment c) = True"
| "isDeleteDiscussionComment x = False"

section \<open>An example store\<close>

text \<open>
  The scenarios of the specification: the release \<^verbatim>\<open>mypkg@v1.2.0\<close>, published on
  2024-03-14 at noon, weekly cycles, and a store that knows the category, answers the
  search with \<open>found\<close>, holds the comments \<open>held\<close> in every discussion, and gives the
  identifiers \<^verbatim>\<open>D_new\<close> and \<^verbatim>\<open>C_new\<close> to what it creates. An update returns the comment
  under its identifier.
\<close>

definition exampleInputs :: inputs where
  "exampleInputs =
     \<lparr>input_repo = ''magicbell-io/community'', input_category = ''product-changelog'',
      input_cycle = ''week'', monthLong = (\<lambda>m. ''March'')\<rparr>"

definition exampleRelease :: "bool \<Rightarrow> release" where
  "exampleRelease isDraft =
     \<lparr>release_name = ''mypkg'', tag_name = ''v1.2.0'', release_body = ''Fixes.'',
      html_url = ''https://example.test/releases/v1.2.0'', draft = isDraft,
      published_at = 1710417600000\<rparr>"

definition examplePayload :: "string \<Rightarrow> bool \<Rightarrow> payload" where
  "examplePayload act isDraft =
     \<lparr>action = act, release = exampleRelease isDraft, repository_private = False\<rparr>"

definition exampleRepository :: repository where
  "exampleRepository =
     \<lparr>repository_id = ''R_1'',
      discussionCategory =
        Some \<lparr>category_id = ''DC_1'', category_name = ''Product Changelog'',
              category_slug = ''product-changelog''\<rparr>\<rparr>"

definition exampleStore :: "discussion list \<Rightarrow> comment list \<Rightarrow> remote" where
  "exampleStore found held =
     \<lparr>getRepository = (\<lambda>ownerName repoName slug. Inr exampleRepository),
      searchDiscussions = (\<lambda>repoName categoryName from to search. Inr found),
      createDiscussion = (\<lambda>repositoryId categoryId title body.
        Inr \<lparr>discussion_id = ''D_new'', discussion_title = title, discussion_body = body,
             discussion_url = ''https://example.test/d/new''\<rparr>),
      getDiscussionById = (\<lambda>discussionId. Inr held),
      deleteDiscussionComment = (\<lambda>commentId. Inr ()),
      updateDiscussionComment = (\<lambda>commentId body.
        Inr \<lparr>comment_id = commentId, comment_body = body,
             comment_url = ''https://example.test/d/1#'' @ commentId\<rparr>),
      addDiscussionComment = (\<lambda>discussionId body.
        Inr \<lparr>comment_id = ''C_new'', comment_body = body,
             comment_url = ''https://example.test/d/1#C_new''\<rparr>),
      updateDiscussion = (\<lambda>discussionId body. Inr ())\<rparr>"

definition exampleDiscussion :: discussion where
  "exampleDiscussion =
     \<lparr>discussion_id = ''D_1'', discussion_title = ''Releases - 2024 Week 11'',
      discussion_body = newDiscussionBody (cycleIdentifier ''2024W11''),
      discussion_url = ''https://example.test/d/1''\<rparr>"

definition exampleComment :: "string \<Rightarrow> string \<Rightarrow> string \<Rightarrow> comment" where
  "exampleComment cid name version =
     \<lparr>comment_id = cid,
      comment_body = releaseIdentifier name version @ ''\<newline>\<newline>### '' @ name @ ''@'' @ version,
      comment_url = ''https://example.test/d/1#'' @ cid\<rparr>"

section \<open>Properties of the date model\<close>

subsection \<open>The year of a time value\<close>

text \<open>
  Integer division by a positive constant, as two linear bounds: the form in which the
  arithmetic below uses it.
\<close>

lemma div_lower: "0 < c \<Longrightarrow> c * (x div c) \<le> (x::int)"
  using pos_mod_sign [of c x] mult_div_mod_eq [of c x] by linarith

lemma div_upper: "0 < c \<Longrightarrow> (x::int) < c * (x div c) + c"
  using pos_mod_bound [of c x] mult_div_mod_eq [of c x] by linarith

lemma DayFromYear_bounds:
  "400 * DayFromYear y \<le> 146097 * y - 287810501 \<and>
   146097 * y - 287811596 \<le> 400 * DayFromYear y"
proof -
  define A where "A = (y - 1969) div 4"
  define B where "B = (y - 1901) div 100"
  define C where "C = (y - 1601) div 400"
  have a: "4 * A \<le> y - 1969" "y - 1969 < 4 * A + 4"
    unfolding A_def using div_lower [of 4 "y - 1969"] div_upper [of 4 "y - 1969"] by simp_all
  have b: "100 * B \<le> y - 1901" "y - 1901 < 100 * B + 100"
    unfolding B_def using div_lower [of 100 "y - 1901"] div_upper [of 100 "y - 1901"] by simp_all
  have c: "400 * C \<le> y - 1601" "y - 1601 < 400 * C + 400"
    unfolding C_def using div_lower [of 400 "y - 1601"] div_upper [of 400 "y - 1601"] by simp_all
  have d: "DayFromYear y = 365 * y - 719050 + A - B + C"
    unfolding DayFromYear_def A_def B_def C_def by simp
  show ?thesis
    unfolding d using a b c by simp
qed

lemma year_estimate_low: "DayFromYear (1970 + (400 * d) div 146097 - 1) \<le> d"
proof -
  define k where "k = (400 * d) div 146097"
  define D where "D = DayFromYear (1970 + k - 1)"
  have k: "146097 * k \<le> 400 * d"
    unfolding k_def using div_lower [of 146097 "400 * d"] by simp
  have "400 * D \<le> 146097 * (1970 + k - 1) - 287810501"
    unfolding D_def using DayFromYear_bounds [of "1970 + k - 1"] by blast
  with k have "D \<le> d" by simp
  then show ?thesis unfolding k_def D_def by simp
qed

lemma year_estimate_high: "d < DayFromYear (1970 + (400 * d) div 146097 + 2)"
proof -
  define k where "k = (400 * d) div 146097"
  define D where "D = DayFromYear (1970 + k + 2)"
  have k: "400 * d < 146097 * k + 146097"
    unfolding k_def using div_upper [of 146097 "400 * d"] by simp
  have "146097 * (1970 + k + 2) - 287811596 \<le> 400 * D"
    unfolding D_def using DayFromYear_bounds [of "1970 + k + 2"] by blast
  with k have "d < D" by simp
  then show ?thesis unfolding k_def D_def by simp
qed

text \<open>The year found is the year of ECMA-262: its first day is not after \<open>t\<close>, the next one is.\<close>

lemma YearFromTime_bounds:
  "DayFromYear (YearFromTime t) \<le> Day t \<and> Day t < DayFromYear (YearFromTime t + 1)"
proof -
  define y where "y = 1970 + (400 * Day t) div 146097"
  have lo: "DayFromYear (y - 1) \<le> Day t"
    unfolding y_def using year_estimate_low [of "Day t"] by simp
  have hi: "Day t < DayFromYear (y + 1 + 1)"
    unfolding y_def using year_estimate_high [of "Day t"] by simp
  have Y: "YearFromTime t =
      (if Day t < DayFromYear y then y - 1
       else if DayFromYear (y + 1) \<le> Day t then y + 1 else y)"
    unfolding YearFromTime_def y_def by (simp add: Let_def)
  show ?thesis
  proof (cases "Day t < DayFromYear y")
    case True
    then show ?thesis using lo Y by simp
  next
    case False
    show ?thesis
    proof (cases "DayFromYear (y + 1) \<le> Day t")
      case True
      then show ?thesis using False hi Y by simp
    next
      case F2: False
      then show ?thesis using False Y by simp
    qed
  qed
qed

lemma DayWithinYear_nonneg: "0 \<le> DayWithinYear t"
  unfolding DayWithinYear_def using YearFromTime_bounds [of t] by simp

text \<open>
  \<open>DayFromYear\<close> grows by the length of the year, hence strictly, and the year of a
  time value is unique.
\<close>

lemma div_succ:
  fixes x c :: int
  assumes "0 < c"
  shows "(x + 1) div c = x div c + (if (x + 1) mod c = 0 then 1 else 0)"
proof -
  define q where "q = x div c"
  define r where "r = x mod c"
  have x: "x = c * q + r"
    unfolding q_def r_def by simp
  have r: "0 \<le> r" "r < c"
    unfolding r_def using assms by simp_all
  show ?thesis
  proof (cases "r + 1 < c")
    case True
    have e: "x + 1 = c * q + (r + 1)" using x by simp
    have "(x + 1) div c = q"
      using e r True by (intro int_div_pos_eq [of "x + 1" c q "r + 1"]) simp_all
    moreover have "(x + 1) mod c = r + 1"
      using e r True by (intro int_mod_pos_eq [of "x + 1" c q "r + 1"]) simp_all
    ultimately show ?thesis using r unfolding q_def by simp
  next
    case False
    then have rc: "r + 1 = c" using r by simp
    have e: "x + 1 = c * (q + 1) + 0" using x rc by (simp add: algebra_simps)
    have "(x + 1) div c = q + 1"
      using e assms by (intro int_div_pos_eq [of "x + 1" c "q + 1" 0]) simp_all
    moreover have "(x + 1) mod c = 0"
      using e assms by (intro int_mod_pos_eq [of "x + 1" c "q + 1" 0]) simp_all
    ultimately show ?thesis unfolding q_def by simp
  qed
qed

lemma DayFromYear_step: "DayFromYear (y + 1) = DayFromYear y + DaysInYear y"
proof -
  have m4: "(y - 1969 + 1) mod 4 = y mod 4"
    using mod_mult_self1 [of y "- 492" 4] by simp
  have m100: "(y - 1901 + 1) mod 100 = y mod 100"
    using mod_mult_self1 [of y "- 19" 100] by simp
  have m400: "(y - 1601 + 1) mod 400 = y mod 400"
    using mod_mult_self1 [of y "- 4" 400] by simp
  have a: "(y + 1 - 1969) div 4 = (y - 1969) div 4 + (if y mod 4 = 0 then 1 else 0)"
    using div_succ [of 4 "y - 1969"] unfolding m4 by (simp add: algebra_simps)
  have b: "(y + 1 - 1901) div 100 = (y - 1901) div 100 + (if y mod 100 = 0 then 1 else 0)"
    using div_succ [of 100 "y - 1901"] unfolding m100 by (simp add: algebra_simps)
  have c: "(y + 1 - 1601) div 400 = (y - 1601) div 400 + (if y mod 400 = 0 then 1 else 0)"
    using div_succ [of 400 "y - 1601"] unfolding m400 by (simp add: algebra_simps)
  have d1: "y mod 100 = 0 \<Longrightarrow> y mod 4 = 0"
    using dvd_trans [of 4 100 y] by (simp add: dvd_eq_mod_eq_0 [symmetric])
  have d2: "y mod 400 = 0 \<Longrightarrow> y mod 100 = 0"
    using dvd_trans [of 100 400 y] by (simp add: dvd_eq_mod_eq_0 [symmetric])
  show ?thesis
    unfolding DayFromYear_def DaysInYear_def a b c using d1 d2 by auto
qed

lemma DaysInYear_pos: "0 < DaysInYear y"
  unfolding DaysInYear_def by simp

lemma DayFromYear_mono_nat: "DayFromYear y \<le> DayFromYear (y + int n)"
proof (induction n)
  case 0
  then show ?case by simp
next
  case (Suc n)
  have "DayFromYear (y + int (Suc n)) = DayFromYear (y + int n) + DaysInYear (y + int n)"
    using DayFromYear_step [of "y + int n"] by (simp add: add.commute add.left_commute)
  then show ?case using Suc DaysInYear_pos [of "y + int n"] by simp
qed

lemma DayFromYear_mono: "y \<le> z \<Longrightarrow> DayFromYear y \<le> DayFromYear z"
  using DayFromYear_mono_nat [of y "nat (z - y)"] by simp

lemma YearFromTime_unique:
  assumes "DayFromYear y \<le> Day t" and "Day t < DayFromYear (y + 1)"
  shows "YearFromTime t = y"
proof (rule ccontr)
  assume ne: "YearFromTime t \<noteq> y"
  have b: "DayFromYear (YearFromTime t) \<le> Day t" "Day t < DayFromYear (YearFromTime t + 1)"
    using YearFromTime_bounds [of t] by simp_all
  show False
  proof (cases "YearFromTime t < y")
    case True
    then have "DayFromYear (YearFromTime t + 1) \<le> DayFromYear y"
      by (intro DayFromYear_mono) simp
    then show False using b assms by simp
  next
    case False
    then have "DayFromYear (y + 1) \<le> DayFromYear (YearFromTime t)"
      using ne by (intro DayFromYear_mono) simp
    then show False using b assms by simp
  qed
qed

subsection \<open>Month, day of month and \<^verbatim>\<open>setDate\<close>\<close>





subsection \<open>Days and time values\<close>

lemma msPerDay_pos: "0 < msPerDay"
  by (simp add: msPerDay_def)




lemma Day_less: "t < (Day t + 1) * msPerDay"
  unfolding Day_def using div_upper [of msPerDay t] msPerDay_pos by (simp add: algebra_simps)



subsection \<open>Week numbers and first days of weeks\<close>










section \<open>Properties of the matchers\<close>

subsection \<open>Literals and lazy repetitions\<close>

text \<open>
  A lazy repetition stops at the first index at which the rest of the pattern matches:
  it returns the characters before that index, all of the class, and what the rest
  returned (\<open>lazyStar_complete\<close>), and it returns nothing else (\<open>lazyStar_sound\<close>).
  \<open>exec\<close> is the lazy repetition of any character before the pattern.
\<close>

lemma prefix_iff_take: "prefix p s \<longleftrightarrow> take (length p) s = p"
proof
  assume "prefix p s"
  then obtain zs where "s = p @ zs" by (rule prefixE)
  then show "take (length p) s = p" by simp
next
  assume "take (length p) s = p"
  then show "prefix p s" by (metis take_is_prefix)
qed

lemma prefix_append_long:
  "length p \<le> length u \<Longrightarrow> prefix p (u @ v) \<longleftrightarrow> prefix p u"
  by (simp add: prefix_iff_take)

lemma lit_Some: "lit p k (p @ s) = k s"
  by (simp add: lit_def)

lemma lit_None: "\<not> prefix p s \<Longrightarrow> lit p k s = None"
  by (simp add: lit_def)

lemma lit_eq_Some:
  "lit p k s = Some r \<longleftrightarrow> (\<exists>t. s = p @ t \<and> k t = Some r)"
  by (auto simp: lit_def prefix_def)

lemma lazyStar_hit: "k s = Some r \<Longrightarrow> lazyStar cls k acc s = Some (rev acc, r)"
  by (cases s) simp_all

lemma lazyStar_miss:
  "k (c # cs) = None \<Longrightarrow> cls c \<Longrightarrow> lazyStar cls k acc (c # cs) = lazyStar cls k (c # acc) cs"
  by simp

lemma lazyStar_complete:
  assumes "\<forall>c\<in>set xs. cls c"
    and "\<forall>i<length xs. k (drop i xs @ rest) = None"
    and "k rest = Some r"
  shows "lazyStar cls k acc (xs @ rest) = Some (rev acc @ xs, r)"
  using assms
proof (induction xs arbitrary: acc)
  case Nil
  then show ?case by (simp add: lazyStar_hit)
next
  case (Cons x xs)
  have miss: "k (x # xs @ rest) = None"
    using Cons.prems(2) by (elim allE [of _ 0]) simp
  have later: "\<forall>i<length xs. k (drop i xs @ rest) = None"
  proof (intro allI impI)
    fix i assume "i < length xs"
    then have "k (drop (Suc i) (x # xs) @ rest) = None"
      using Cons.prems(2) by (elim allE [of _ "Suc i"]) simp
    then show "k (drop i xs @ rest) = None" by simp
  qed
  have "lazyStar cls k acc ((x # xs) @ rest) = lazyStar cls k (x # acc) (xs @ rest)"
    using miss Cons.prems(1) by simp
  also have "\<dots> = Some (rev (x # acc) @ xs, r)"
    using Cons.prems(1,3) later by (intro Cons.IH) simp_all
  finally show ?case by simp
qed

lemma lazyStar_sound:
  assumes "lazyStar cls k acc s = Some (x, r)"
  shows "\<exists>xs rest. s = xs @ rest \<and> x = rev acc @ xs \<and> k rest = Some r
           \<and> (\<forall>c\<in>set xs. cls c) \<and> (\<forall>i<length xs. k (drop i xs @ rest) = None)"
  using assms
proof (induction s arbitrary: acc)
  case Nil
  then have "k [] = Some r" "x = rev acc"
    by (auto split: option.splits)
  then show ?case by simp
next
  case (Cons c cs)
  show ?case
  proof (cases "k (c # cs)")
    case (Some r')
    then have "x = rev acc" "r' = r" using Cons.prems by simp_all
    then have "c # cs = [] @ (c # cs) \<and> x = rev acc @ [] \<and> k (c # cs) = Some r
           \<and> (\<forall>c\<in>set []. cls c) \<and> (\<forall>i<length ([]::string). k (drop i [] @ (c # cs)) = None)"
      using Some by simp
    then show ?thesis by blast
  next
    case None
    then have c: "cls c" and rec: "lazyStar cls k (c # acc) cs = Some (x, r)"
      using Cons.prems by (auto split: if_splits)
    from Cons.IH [OF rec] obtain xs rest where
      o: "cs = xs @ rest" "x = rev (c # acc) @ xs" "k rest = Some r"
         "\<forall>c\<in>set xs. cls c" "\<forall>i<length xs. k (drop i xs @ rest) = None"
      by blast
    have "\<forall>i<length (c # xs). k (drop i (c # xs) @ rest) = None"
    proof (intro allI impI)
      fix i assume i: "i < length (c # xs)"
      show "k (drop i (c # xs) @ rest) = None"
      proof (cases i)
        case 0
        then show ?thesis using None o(1) by simp
      next
        case (Suc j)
        then show ?thesis using i o(5) by simp
      qed
    qed
    then have "c # cs = (c # xs) @ rest \<and> x = rev acc @ (c # xs) \<and> k rest = Some r
           \<and> (\<forall>c\<in>set (c # xs). cls c) \<and> (\<forall>i<length (c # xs). k (drop i (c # xs) @ rest) = None)"
      using o c by simp
    then show ?thesis by blast
  qed
qed

lemma lazyStar_None:
  assumes "\<forall>i\<le>length s. k (drop i s) = None"
  shows "lazyStar cls k acc s = None"
  using assms
proof (induction s arbitrary: acc)
  case Nil
  then show ?case by simp
next
  case (Cons c cs)
  have h: "k (c # cs) = None"
    using Cons.prems by (elim allE [of _ 0]) simp
  have "\<forall>i\<le>length cs. k (drop i cs) = None"
  proof (intro allI impI)
    fix i assume "i \<le> length cs"
    then have "k (drop (Suc i) (c # cs)) = None"
      using Cons.prems by (elim allE [of _ "Suc i"]) simp
    then show "k (drop i cs) = None" by simp
  qed
  then have "lazyStar cls k (c # acc) cs = None" by (rule Cons.IH)
  then show ?case using h by simp
qed

lemma exec_lazyStar: "exec m acc s = lazyStar (\<lambda>c. True) m acc s"
  by (induction s arbitrary: acc) (simp_all split: option.splits)

lemma exec_hit: "m s = Some r \<Longrightarrow> exec m [] s = Some ([], r)"
  using lazyStar_hit [of m s r "\<lambda>c. True" "[]"] by (simp add: exec_lazyStar)

lemma includes_string_iff:
  "includes_string s p \<longleftrightarrow> (\<exists>i\<le>length s. prefix p (drop i s))"
proof (induction s)
  case Nil
  then show ?case by simp
next
  case (Cons c cs)
  show ?case
  proof
    assume "includes_string (c # cs) p"
    then consider "prefix p (c # cs)" | "includes_string cs p" by auto
    then show "\<exists>i\<le>length (c # cs). prefix p (drop i (c # cs))"
    proof cases
      case 1
      then have "0 \<le> length (c # cs) \<and> prefix p (drop 0 (c # cs))" by simp
      then show ?thesis by blast
    next
      case 2
      then obtain i where "i \<le> length cs" "prefix p (drop i cs)"
        using Cons.IH by blast
      then have "Suc i \<le> length (c # cs) \<and> prefix p (drop (Suc i) (c # cs))" by simp
      then show ?thesis by blast
    qed
  next
    assume "\<exists>i\<le>length (c # cs). prefix p (drop i (c # cs))"
    then obtain i where i: "i \<le> length (c # cs)" "prefix p (drop i (c # cs))" by blast
    show "includes_string (c # cs) p"
    proof (cases i)
      case 0
      then show ?thesis using i by simp
    next
      case (Suc j)
      then have "j \<le> length cs \<and> prefix p (drop j cs)" using i by simp
      then have "includes_string cs p" using Cons.IH by blast
      then show ?thesis by simp
    qed
  qed
qed

text \<open>
  A literal whose first character does not occur again in it cannot begin in a text and
  end in a copy of itself that follows the text.
\<close>

lemma no_overlap:
  assumes p: "p = a # q" "a \<notin> set q"
    and i: "i < length v"
    and occ: "prefix p (drop i (v @ p @ rest))"
  shows "i + length p \<le> length v"
proof (rule ccontr)
  assume "\<not> i + length p \<le> length v"
  then have j: "length v - i < length p" "0 < length v - i"
    using i by simp_all
  define j where "j = length v - i"
  have j': "j < length p" "0 < j" "i + j = length v"
    using j i unfolding j_def by simp_all
  obtain zs where zs: "drop i (v @ p @ rest) = p @ zs"
    using occ by (rule prefixE)
  have "(drop i (v @ p @ rest)) ! j = (v @ p @ rest) ! (i + j)"
    using i by (intro nth_drop) simp
  also have "\<dots> = a"
    using j'(3) p(1) by (simp add: nth_append)
  finally have "(p @ zs) ! j = a"
    using zs by simp
  then have "p ! j = a"
    using j'(1) by (simp add: nth_append)
  then have "q ! (j - 1) = a"
    using p(1) j'(2) by (cases j) simp_all
  moreover have "j - 1 < length q"
    using j' p(1) by simp
  ultimately have "a \<in> set q"
    by (metis nth_mem)
  then show False using p(2) by simp
qed

lemma occurrence_inside:
  assumes "p = a # q" "a \<notin> set q" "i < length v" "prefix p (drop i (v @ p @ rest))"
  shows "prefix p (drop i v)"
proof -
  have le: "i + length p \<le> length v"
    using assms by (rule no_overlap)
  have "drop i (v @ p @ rest) = drop i v @ p @ rest"
    using assms(3) by simp
  moreover have "length p \<le> length (drop i v)"
    using le by simp
  ultimately show ?thesis
    using assms(4) by (simp add: prefix_append_long)
qed

lemma not_included_no_early_occurrence:
  assumes "p = a # q" "a \<notin> set q" "\<not> includes_string v p" "i < length v"
  shows "\<not> prefix p (drop i (v @ p @ rest))"
proof
  assume "prefix p (drop i (v @ p @ rest))"
  then have "prefix p (drop i v)"
    using assms(1,2,4) by (intro occurrence_inside [of p a q i v rest]) simp_all
  then have "includes_string v p"
    using assms(4) unfolding includes_string_iff by (intro exI [of _ i]) simp
  then show False using assms(3) by simp
qed

subsection \<open>The release marker\<close>

lemma releaseItemRegex_round_trip:
  assumes at: "CHR ''@'' \<notin> set name"
    and n: "\<forall>c\<in>set name. \<not> isLineTerminator c"
    and v: "\<forall>c\<in>set version. \<not> isLineTerminator c"
    and e: "\<not> includes_string version '' -->''"
  shows "releaseItemRegex (releaseIdentifier name version @ rest) = Some (name, version)"
proof -
  define K4 :: "string \<Rightarrow> string option" where "K4 = lit '' -->'' Some"
  define K3 where "K3 = lazyStar isDot K4 []"
  define K2 where "K2 = lit ''@'' K3"
  define K1 where "K1 = lazyStar isDot K2 []"
  have k4: "\<forall>i<length version. K4 (drop i version @ '' -->'' @ rest) = None"
  proof (intro allI impI)
    fix i assume i: "i < length version"
    have "\<not> prefix '' -->'' (drop i (version @ '' -->'' @ rest))"
      using e i by (intro not_included_no_early_occurrence [of _ "CHR '' ''" "''-->''"]) simp_all
    then show "K4 (drop i version @ '' -->'' @ rest) = None"
      unfolding K4_def using i by (simp add: lit_None)
  qed
  have "K4 ('' -->'' @ rest) = Some rest"
    unfolding K4_def by (rule lit_Some)
  then have k3: "K3 (version @ '' -->'' @ rest) = Some (version, rest)"
    unfolding K3_def using v k4
    using lazyStar_complete [of version isDot K4 "'' -->'' @ rest" rest "[]"]
    by (simp add: isDot_def)
  have k2: "\<forall>i<length name. K2 (drop i name @ ''@'' @ version @ '' -->'' @ rest) = None"
  proof (intro allI impI)
    fix i assume i: "i < length name"
    then obtain c cs where d: "drop i name = c # cs"
      by (cases "drop i name") simp_all
    then have "c \<in> set name"
      by (metis in_set_dropD list.set_intros(1))
    then have "c \<noteq> CHR ''@''" using at by auto
    then show "K2 (drop i name @ ''@'' @ version @ '' -->'' @ rest) = None"
      unfolding K2_def d by (simp add: lit_def)
  qed
  have "K2 (''@'' @ version @ '' -->'' @ rest) = Some (version, rest)"
    unfolding K2_def using k3 by (simp only: lit_Some)
  then have k1: "K1 (name @ ''@'' @ version @ '' -->'' @ rest) = Some (name, version, rest)"
    unfolding K1_def using n k2
    using lazyStar_complete [of name isDot K2 "''@'' @ version @ '' -->'' @ rest"
        "(version, rest)" "[]"]
    by (simp add: isDot_def)
  have s: "releaseIdentifier name version @ rest
           = ''<!-- release-item:'' @ (name @ ''@'' @ version @ '' -->'' @ rest)"
    by (simp add: releaseIdentifier_def)
  have "lit ''<!-- release-item:'' K1 (releaseIdentifier name version @ rest)
        = Some (name, version, rest)"
    unfolding s using k1 by (simp only: lit_Some)
  then have "exec (lit ''<!-- release-item:'' K1) [] (releaseIdentifier name version @ rest)
        = Some ([], name, version, rest)"
    by (rule exec_hit)
  then show ?thesis
    unfolding releaseItemRegex_def K1_def K2_def K3_def K4_def by simp
qed

lemma lazyStar_Some:
  assumes "i \<le> length s" and "k (drop i s) \<noteq> None" and "\<forall>c. cls c"
  shows "lazyStar cls k acc s \<noteq> None"
  using assms
proof (induction s arbitrary: acc i)
  case Nil
  then show ?case by (auto split: option.splits)
next
  case (Cons c cs)
  show ?case
  proof (cases "k (c # cs)")
    case (Some r)
    then show ?thesis by simp
  next
    case None
    then obtain j where j: "i = Suc j"
      using Cons.prems(2) by (cases i) simp_all
    have "lazyStar cls k (c # acc) cs \<noteq> None"
      using Cons.prems j by (intro Cons.IH [of j]) simp_all
    moreover have "cls c" using Cons.prems(3) by blast
    ultimately show ?thesis using None by simp
  qed
qed

subsection \<open>Replacement patterns that stand for themselves\<close>

lemma GetSubstitution_plain_Cons:
  "c \<noteq> CHR ''$'' \<Longrightarrow>
     GetSubstitution m b a caps (c # u) = c # GetSubstitution m b a caps u"
  by (cases u) simp_all

lemma startsPattern_dollar:
  "startsPattern (CHR ''$'' # d # ds) \<longleftrightarrow>
     d = CHR ''$'' \<or> d = CHR ''&'' \<or> d = CHR 0x60 \<or> d = CHR 0x27
     \<or> d = CHR ''1'' \<or> d = CHR ''2''
     \<or> (d = CHR ''0'' \<and> (\<exists>e es. ds = e # es \<and> (e = CHR ''1'' \<or> e = CHR ''2'')))"
  unfolding startsPattern_def replacementPatterns_def
  by (cases ds) auto

lemma isDigit_cases:
  "isDigit d \<longleftrightarrow> d = CHR ''0'' \<or> d = CHR ''1'' \<or> d = CHR ''2'' \<or> d = CHR ''3''
     \<or> d = CHR ''4'' \<or> d = CHR ''5'' \<or> d = CHR ''6'' \<or> d = CHR ''7''
     \<or> d = CHR ''8'' \<or> d = CHR ''9''"
  unfolding isDigit_def by auto

lemma digitValue_simps:
  "digitValue CHR ''0'' = 0" "digitValue CHR ''1'' = 1" "digitValue CHR ''2'' = 2"
  "digitValue CHR ''3'' = 3" "digitValue CHR ''4'' = 4" "digitValue CHR ''5'' = 5"
  "digitValue CHR ''6'' = 6" "digitValue CHR ''7'' = 7" "digitValue CHR ''8'' = 8"
  "digitValue CHR ''9'' = 9"
  by (simp_all add: digitValue_def)


lemma capture_two:
  "capture [g1, g2] n = (if n = 1 then Some g1 else if n = 2 then Some g2 else None)"
  unfolding capture_def by (auto simp: less_Suc_eq_le numeral_2_eq_2 le_Suc_eq)

lemma GetSubstitution_literal:
  "\<not> includesPattern t \<Longrightarrow>
     GetSubstitution m b a [g1, g2] (t @ CHR 0x0A # u)
     = t @ CHR 0x0A # GetSubstitution m b a [g1, g2] u"
proof (induction "length t" arbitrary: t rule: less_induct)
  case less
  note IH = less.hyps
  show ?case
  proof (cases t)
    case Nil
    then show ?thesis
      by (simp add: GetSubstitution_plain_Cons del: GetSubstitution.simps)
  next
    case t: (Cons c cs)
    have ncs: "\<not> includesPattern cs" and nst: "\<not> startsPattern (c # cs)"
      using less.prems unfolding t by simp_all
    have IHcs: "GetSubstitution m b a [g1, g2] (cs @ CHR 0x0A # u)
                = cs @ CHR 0x0A # GetSubstitution m b a [g1, g2] u"
      using IH [of cs] ncs unfolding t by simp
    show ?thesis
    proof (cases "c = CHR ''$''")
      case False
      then show ?thesis
        unfolding t using IHcs
        by (simp add: GetSubstitution_plain_Cons del: GetSubstitution.simps)
    next
      case c: True
      show ?thesis
      proof (cases cs)
        case Nil
        have "GetSubstitution m b a [g1, g2] (CHR ''$'' # CHR 0x0A # u)
              = CHR ''$'' # GetSubstitution m b a [g1, g2] (CHR 0x0A # u)"
          by (simp add: isDigit_def)
        then show ?thesis
          unfolding t c Nil
          by (simp add: GetSubstitution_plain_Cons del: GetSubstitution.simps)
      next
        case cs: (Cons d ds)
        have d: "d \<noteq> CHR ''$''" "d \<noteq> CHR ''&''" "d \<noteq> CHR 0x60" "d \<noteq> CHR 0x27"
          "d \<noteq> CHR ''1''" "d \<noteq> CHR ''2''"
          and d0: "d = CHR ''0'' \<Longrightarrow> ds = e # es \<Longrightarrow> e \<noteq> CHR ''1'' \<and> e \<noteq> CHR ''2''" for e es
          using nst unfolding c cs startsPattern_dollar by auto
        have cd: "capture [g1, g2] (digitValue d) = None" if "isDigit d"
          using that d(5,6) unfolding isDigit_cases capture_two
          by (auto simp: digitValue_simps)
        show ?thesis
        proof (cases "isDigit d")
          case False
          have "GetSubstitution m b a [g1, g2] (CHR ''$'' # d # (ds @ CHR 0x0A # u))
                = CHR ''$'' # GetSubstitution m b a [g1, g2] (d # (ds @ CHR 0x0A # u))"
            using False d by simp
          then show ?thesis
            unfolding t c using IHcs unfolding cs by simp
        next
          case dig: True
          show ?thesis
          proof (cases ds)
            case Nil
            have "GetSubstitution m b a [g1, g2] (CHR ''$'' # d # CHR 0x0A # u)
                  = CHR ''$'' # d # GetSubstitution m b a [g1, g2] (CHR 0x0A # u)"
              using dig d cd by (simp add: isDigit_def [of "CHR 0x0A"])
            then show ?thesis
              unfolding t c cs Nil
              by (simp add: GetSubstitution_plain_Cons del: GetSubstitution.simps)
          next
            case ds: (Cons e es)
            have nes: "\<not> includesPattern es" and nds: "\<not> includesPattern ds"
              using ncs unfolding cs ds by simp_all
            have IHds: "GetSubstitution m b a [g1, g2] (ds @ CHR 0x0A # u)
                = ds @ CHR 0x0A # GetSubstitution m b a [g1, g2] u"
              using IH [of ds] nds unfolding t cs by simp
            have IHes: "GetSubstitution m b a [g1, g2] (es @ CHR 0x0A # u)
                = es @ CHR 0x0A # GetSubstitution m b a [g1, g2] u"
              using IH [of es] nes unfolding t cs ds by simp
            show ?thesis
            proof (cases "isDigit e \<and> 10 * digitValue d + digitValue e \<le> 2")
              case True
              then have "d = CHR ''0''"
                using dig unfolding isDigit_cases [of d] by (auto simp: digitValue_simps)
              moreover from this have "e = CHR ''0''"
                using True d0 [OF _ ds] unfolding isDigit_cases [of e]
                by (auto simp: digitValue_simps)
              ultimately have "GetSubstitution m b a [g1, g2] (CHR ''$'' # d # e # (es @ CHR 0x0A # u))
                    = CHR ''$'' # d # e # GetSubstitution m b a [g1, g2] (es @ CHR 0x0A # u)"
                by (simp add: isDigit_def capture_two digitValue_simps)
              then show ?thesis
                unfolding t c cs ds using IHes by simp
            next
              case False
              then have "GetSubstitution m b a [g1, g2] (CHR ''$'' # d # e # (es @ CHR 0x0A # u))
                    = CHR ''$'' # d # GetSubstitution m b a [g1, g2] (e # (es @ CHR 0x0A # u))"
                using dig d cd by (auto simp: numeral_2_eq_2)
              then show ?thesis
                unfolding t c cs using IHds unfolding ds by simp
            qed
          qed
        qed
      qed
    qed
  qed
qed

lemma includesPattern_dollar: "includesPattern t \<Longrightarrow> CHR ''$'' \<in> set t"
  by (induction t) (auto simp: startsPattern_def replacementPatterns_def prefix_Cons)

lemma GetSubstitution_group2: "GetSubstitution m b a [g1, g2] ''$2'' = g2"
  by (simp add: capture_def isDigit_def digitValue_def)

lemma GetSubstitution_group1:
  "GetSubstitution m b a [g1, g2] (CHR ''$'' # CHR ''1'' # CHR 0x0A # u)
   = g1 @ CHR 0x0A # GetSubstitution m b a [g1, g2] u"
proof -
  have "GetSubstitution m b a [g1, g2] (CHR ''$'' # CHR ''1'' # CHR 0x0A # u)
        = g1 @ GetSubstitution m b a [g1, g2] (CHR 0x0A # u)"
    by (simp add: capture_def isDigit_def digitValue_def)
  also have "GetSubstitution m b a [g1, g2] (CHR 0x0A # u)
        = CHR 0x0A # GetSubstitution m b a [g1, g2] u"
    by (rule GetSubstitution_plain_Cons) simp
  finally show ?thesis .
qed

lemma GetSubstitution_template:
  assumes "\<not> includesPattern toc"
  shows "GetSubstitution m b a [g1, g2] (''$1\<newline>'' @ toc @ ''\<newline>$2'')
         = g1 @ ''\<newline>'' @ toc @ ''\<newline>'' @ g2"
proof -
  have t: "GetSubstitution m b a [g1, g2] (toc @ CHR 0x0A # ''$2'')
        = toc @ CHR 0x0A # g2"
    using GetSubstitution_literal [OF assms, of m b a g1 g2 "''$2''"]
    by (simp only: GetSubstitution_group2)
  have "''$1\<newline>'' @ toc @ ''\<newline>$2''
        = CHR ''$'' # CHR ''1'' # CHR 0x0A # (toc @ CHR 0x0A # ''$2'')"
    by simp
  then have "GetSubstitution m b a [g1, g2] (''$1\<newline>'' @ toc @ ''\<newline>$2'')
        = g1 @ CHR 0x0A # toc @ CHR 0x0A # g2"
    by (simp only: GetSubstitution_group1 t)
  then show ?thesis by simp
qed

subsection \<open>The match of the table-of-contents region\<close>

lemma tocRegex_complete:
  assumes body: "body = b @ START_TOC @ mid @ END_TOC @ a"
    and first_start: "\<forall>i<length b. \<not> prefix START_TOC (drop i body)"
    and first_end: "\<forall>i<length mid. \<not> prefix END_TOC (drop i (mid @ END_TOC))"
  shows "tocRegex body = Some (b, mid, a)"
proof -
  define K :: "string \<Rightarrow> (string \<times> string) option"
    where "K = lazyStar isAny (lit END_TOC Some) []"
  have "\<forall>i<length mid. lit END_TOC Some (drop i mid @ END_TOC @ a) = None"
  proof (intro allI impI)
    fix i assume i: "i < length mid"
    then have "\<not> prefix END_TOC (drop i mid @ END_TOC)"
      using first_end by simp
    then have "\<not> prefix END_TOC ((drop i mid @ END_TOC) @ a)"
      by (simp only: prefix_append_long [of END_TOC "drop i mid @ END_TOC" a] length_append
          le_add2 simp_thms)
    then show "lit END_TOC Some (drop i mid @ END_TOC @ a) = None"
      by (simp add: lit_None)
  qed
  moreover have "lit END_TOC Some (END_TOC @ a) = Some a"
    by (rule lit_Some)
  ultimately have K: "K (mid @ END_TOC @ a) = Some (mid, a)"
    unfolding K_def
    using lazyStar_complete [of mid isAny "lit END_TOC Some" "END_TOC @ a" a "[]"]
    by (simp add: isAny_def)
  have m: "lit START_TOC K (START_TOC @ mid @ END_TOC @ a) = Some (mid, a)"
    using K by (simp only: lit_Some)
  have "\<forall>i<length b. lit START_TOC K (drop i b @ START_TOC @ mid @ END_TOC @ a) = None"
  proof (intro allI impI)
    fix i assume "i < length b"
    then have "\<not> prefix START_TOC (drop i b @ START_TOC @ mid @ END_TOC @ a)"
      using first_start unfolding body by simp
    then show "lit START_TOC K (drop i b @ START_TOC @ mid @ END_TOC @ a) = None"
      by (rule lit_None)
  qed
  then have "lazyStar (\<lambda>c. True) (lit START_TOC K) [] (b @ START_TOC @ mid @ END_TOC @ a)
             = Some (b, mid, a)"
    using m lazyStar_complete [of b "\<lambda>c. True" "lit START_TOC K"
        "START_TOC @ mid @ END_TOC @ a" "(mid, a)" "[]"]
    by simp
  then show ?thesis
    unfolding tocRegex_def body K_def by (simp add: exec_lazyStar)
qed

lemma tocRegex_sound:
  assumes "tocRegex body = Some (b, mid, a)"
  shows "body = b @ START_TOC @ mid @ END_TOC @ a
       \<and> (\<forall>i<length b. \<not> prefix START_TOC (drop i body))
       \<and> (\<forall>i<length mid. \<not> prefix END_TOC (drop i (mid @ END_TOC)))"
proof -
  define K :: "string \<Rightarrow> (string \<times> string) option"
    where "K = lazyStar isAny (lit END_TOC Some) []"
  have "lazyStar (\<lambda>c. True) (lit START_TOC K) [] body = Some (b, mid, a)"
    using assms unfolding tocRegex_def K_def by (simp add: exec_lazyStar)
  then obtain xs rest where o:
    "body = xs @ rest" "b = rev [] @ xs" "lit START_TOC K rest = Some (mid, a)"
    "\<forall>i<length xs. lit START_TOC K (drop i xs @ rest) = None"
    using lazyStar_sound [of "\<lambda>c. True" "lit START_TOC K" "[]" body b "(mid, a)"] by blast
  have b: "b = xs" using o(2) by simp
  obtain t where t: "rest = START_TOC @ t" "K t = Some (mid, a)"
    using o(3) unfolding lit_eq_Some by blast
  obtain ys rest' where p:
    "t = ys @ rest'" "mid = rev [] @ ys" "lit END_TOC Some rest' = Some a"
    "\<forall>i<length ys. lit END_TOC Some (drop i ys @ rest') = None"
    using t(2) unfolding K_def
    using lazyStar_sound [of isAny "lit END_TOC Some" "[]" t mid a] by blast
  have mid: "mid = ys" using p(2) by simp
  have rest': "rest' = END_TOC @ a"
    using p(3) unfolding lit_eq_Some by simp
  have body: "body = b @ START_TOC @ mid @ END_TOC @ a"
    using o(1) b t(1) p(1) mid rest' by simp
  have e: "\<forall>i<length mid. \<not> prefix END_TOC (drop i (mid @ END_TOC))"
  proof (intro allI impI notI)
    fix i assume i: "i < length mid" and pr: "prefix END_TOC (drop i (mid @ END_TOC))"
    have "prefix END_TOC (drop i mid @ END_TOC)"
      using pr i by simp
    then have "prefix END_TOC ((drop i mid @ END_TOC) @ a)"
      by (rule prefix_prefix)
    then have "lit END_TOC Some (drop i ys @ rest') \<noteq> None"
      unfolding mid rest' by (simp add: lit_def)
    then show False using p(4) i mid by simp
  qed
  have s: "\<forall>i<length b. \<not> prefix START_TOC (drop i body)"
  proof (intro allI impI notI)
    fix i assume i: "i < length b" and pr: "prefix START_TOC (drop i body)"
    obtain u where u: "drop i body = START_TOC @ u"
      using pr by (rule prefixE)
    have "length (drop i body) = length (START_TOC @ u)"
      using u by simp
    then have lu: "length u = length b - i + length mid + length END_TOC + length a"
      using i unfolding body by simp
    define j where "j = length b - i + length mid"
    have "drop (length START_TOC + j) (drop i body) = END_TOC @ a"
      using i unfolding body j_def by simp
    then have "drop j u = END_TOC @ a"
      unfolding u by simp
    then have "lit END_TOC Some (drop j u) \<noteq> None"
      by (simp add: lit_def)
    moreover have "j \<le> length u"
      unfolding j_def lu by simp
    ultimately have "K u \<noteq> None"
      unfolding K_def by (intro lazyStar_Some [of j]) (simp_all add: isAny_def)
    then have "lit START_TOC K (drop i b @ rest) \<noteq> None"
      using u o(1) b i by (simp add: lit_def)
    then show False using o(4) i b by simp
  qed
  show ?thesis using body s e by simp
qed

lemma tocRegex_None:
  "\<not> (\<exists>b mid a. body = b @ START_TOC @ mid @ END_TOC @ a) \<Longrightarrow> tocRegex body = None"
proof (rule ccontr)
  assume n: "\<not> (\<exists>b mid a. body = b @ START_TOC @ mid @ END_TOC @ a)"
    and "tocRegex body \<noteq> None"
  then obtain b mid a where "tocRegex body = Some (b, mid, a)"
    by (cases "tocRegex body") auto
  then have "body = b @ START_TOC @ mid @ END_TOC @ a"
    using tocRegex_sound by blast
  then show False using n by blast
qed

lemma replaceTocRegion_match:
  assumes "\<not> includesPattern toc" and "tocRegex body = Some (b, mid, a)"
  shows "replaceTocRegion body toc
         = b @ START_TOC @ ''\<newline>'' @ toc @ ''\<newline>'' @ END_TOC @ a"
proof -
  have "replaceTocRegion body toc
        = b @ GetSubstitution (START_TOC @ mid @ END_TOC) b a [START_TOC, END_TOC]
                (''$1\<newline>'' @ toc @ ''\<newline>$2'') @ a"
    unfolding replaceTocRegion_def assms(2) by (simp only: option.case prod.case)
  then show ?thesis
    by (simp only: GetSubstitution_template [OF assms(1)] append_assoc)
qed

lemma tocRegex_present:
  assumes "body = b @ START_TOC @ mid @ END_TOC @ a"
  shows "tocRegex body \<noteq> None"
proof -
  define K :: "string \<Rightarrow> (string \<times> string) option"
    where "K = lazyStar isAny (lit END_TOC Some) []"
  have "lit END_TOC Some (drop (length mid) (mid @ END_TOC @ a)) \<noteq> None"
    by (simp add: lit_def)
  then have "K (mid @ END_TOC @ a) \<noteq> None"
    unfolding K_def by (intro lazyStar_Some [of "length mid"]) (simp_all add: isAny_def)
  then have "lit START_TOC K (drop (length b) body) \<noteq> None"
    unfolding assms by (simp add: lit_def)
  then have "lazyStar (\<lambda>c. True) (lit START_TOC K) [] body \<noteq> None"
    by (intro lazyStar_Some [of "length b"]) (simp_all add: assms)
  then show ?thesis
    unfolding tocRegex_def K_def by (simp add: exec_lazyStar)
qed

lemma includes_string_Cons_other:
  assumes "p \<noteq> []" "c \<notin> set p"
  shows "includes_string (c # s) p \<longleftrightarrow> includes_string s p"
proof -
  have "\<not> prefix p (c # s)"
  proof
    assume "prefix p (c # s)"
    then obtain zs where "c # s = p @ zs" by (rule prefixE)
    then have "hd p = c" using assms(1) by (cases p) simp_all
    then show False using assms by (cases p) simp_all
  qed
  then show ?thesis by simp
qed

lemma includes_string_snoc_other:
  assumes "p \<noteq> []" "c \<notin> set p"
  shows "includes_string (s @ [c]) p \<longleftrightarrow> includes_string s p"
proof (induction s)
  case Nil
  have "\<not> prefix p [c]"
  proof
    assume "prefix p [c]"
    then have "p = [] \<or> p = [c]" by (cases p) simp_all
    then show False using assms by auto
  qed
  then show ?case using assms(1) by simp
next
  case (Cons x s)
  have "prefix p ((x # s) @ [c]) \<longleftrightarrow> prefix p (x # s)"
  proof -
    have "p \<noteq> (x # s) @ [c]" using assms(2) by auto
    then show ?thesis by (simp only: prefix_snoc) simp
  qed
  then show ?case using Cons.IH by simp
qed

lemma END_TOC_shape:
  "END_TOC = CHR ''<'' # ''!-- END-RELEASE-TOC -->''"
  "CHR ''<'' \<notin> set ''!-- END-RELEASE-TOC -->''"
  "CHR 0x0A \<notin> set END_TOC"
  "END_TOC \<noteq> []"
  by (simp_all add: END_TOC_def)

lemma replaceTocRegion_idempotent:
  assumes d: "\<not> includesPattern toc" and e: "\<not> includes_string toc END_TOC"
  shows "replaceTocRegion (replaceTocRegion body toc) toc = replaceTocRegion body toc"
proof (cases "tocRegex body")
  case None
  then have "replaceTocRegion body toc = body"
    by (simp add: replaceTocRegion_def)
  then show ?thesis by simp
next
  case (Some r)
  then obtain b mid a where m: "tocRegex body = Some (b, mid, a)"
    by (cases r) auto
  define N where "N = ''\<newline>'' @ toc @ ''\<newline>''"
  define body1 where "body1 = b @ START_TOC @ N @ END_TOC @ a"
  have r1: "replaceTocRegion body toc = body1"
    unfolding body1_def N_def using replaceTocRegion_match [OF d m] by simp
  have s: "body = b @ START_TOC @ mid @ END_TOC @ a"
    "\<forall>i<length b. \<not> prefix START_TOC (drop i body)"
    using tocRegex_sound [OF m] by blast+
  have first_start: "\<forall>i<length b. \<not> prefix START_TOC (drop i body1)"
  proof (intro allI impI)
    fix i assume i: "i < length b"
    have "prefix START_TOC ((drop i b @ START_TOC) @ x) \<longleftrightarrow> prefix START_TOC (drop i b @ START_TOC)"
      for x by (rule prefix_append_long) simp
    then have "prefix START_TOC (drop i body1) \<longleftrightarrow> prefix START_TOC (drop i body)"
      unfolding body1_def s(1) using i by simp
    then show "\<not> prefix START_TOC (drop i body1)"
      using s(2) i by simp
  qed
  have "\<not> includes_string (toc @ [CHR 0x0A]) END_TOC"
    using e includes_string_snoc_other [OF END_TOC_shape(4,3), of toc] by blast
  then have "\<not> includes_string (CHR 0x0A # toc @ [CHR 0x0A]) END_TOC"
    using includes_string_Cons_other [OF END_TOC_shape(4,3), of "toc @ [CHR 0x0A]"] by blast
  then have n: "\<not> includes_string N END_TOC"
    unfolding N_def by simp
  have first_end: "\<forall>i<length N. \<not> prefix END_TOC (drop i (N @ END_TOC))"
  proof (intro allI impI)
    fix i assume i: "i < length N"
    have "\<not> prefix END_TOC (drop i (N @ END_TOC @ []))"
      using END_TOC_shape(1,2) n i by (rule not_included_no_early_occurrence)
    then show "\<not> prefix END_TOC (drop i (N @ END_TOC))" by simp
  qed
  have "tocRegex body1 = Some (b, N, a)"
    using body1_def first_start first_end by (rule tocRegex_complete)
  then have "replaceTocRegion body1 toc = body1"
    unfolding body1_def N_def using replaceTocRegion_match [OF d, of _ b N a]
    by (simp add: N_def)
  then show ?thesis unfolding r1 .
qed

text \<open>
  The converse for a body that holds a pair of sentinels: a table of contents that
  includes \<open>END_TOC\<close> is never spliced twice to what it is spliced once.
\<close>

lemma replaceTocRegion_not_idempotent:
  assumes d: "\<not> includesPattern toc" and e: "includes_string toc END_TOC"
    and pair: "body = b @ START_TOC @ mid @ END_TOC @ a"
  shows "replaceTocRegion (replaceTocRegion body toc) toc \<noteq> replaceTocRegion body toc"
proof
  assume eq: "replaceTocRegion (replaceTocRegion body toc) toc = replaceTocRegion body toc"
  define N where "N = ''\<newline>'' @ toc @ ''\<newline>''"
  have "tocRegex body \<noteq> None"
    using pair by (rule tocRegex_present)
  then obtain b0 mid0 a0 where m: "tocRegex body = Some (b0, mid0, a0)"
    by (cases "tocRegex body") auto
  define body1 where "body1 = b0 @ START_TOC @ N @ END_TOC @ a0"
  have r1: "replaceTocRegion body toc = body1"
    unfolding body1_def N_def using replaceTocRegion_match [OF d m] by simp
  have "tocRegex body1 \<noteq> None"
    using body1_def by (rule tocRegex_present)
  then obtain b1 mid1 a1 where m1: "tocRegex body1 = Some (b1, mid1, a1)"
    by (cases "tocRegex body1") auto
  have s: "body1 = b1 @ START_TOC @ mid1 @ END_TOC @ a1"
    and first_end: "\<forall>i<length mid1. \<not> prefix END_TOC (drop i (mid1 @ END_TOC))"
    using tocRegex_sound [OF m1] by blast+
  have "replaceTocRegion body1 toc = b1 @ START_TOC @ N @ END_TOC @ a1"
    unfolding N_def using replaceTocRegion_match [OF d m1] by simp
  then have "b1 @ START_TOC @ N @ END_TOC @ a1 = b1 @ START_TOC @ mid1 @ END_TOC @ a1"
    using eq s unfolding r1 by simp
  then have mid1: "mid1 = N" by simp
  obtain i where i: "i \<le> length toc" "prefix END_TOC (drop i toc)"
    using e unfolding includes_string_iff by blast
  have less: "Suc i < length N"
    unfolding N_def using i(1) by simp
  have "drop (Suc i) (N @ END_TOC) = drop i toc @ ''\<newline>'' @ END_TOC"
    unfolding N_def using i(1) by simp
  then have "prefix END_TOC (drop (Suc i) (N @ END_TOC))"
    using i(2) by (simp add: prefix_prefix)
  then show False
    using first_end less unfolding mid1 by blast
qed


section \<open>The cycle window\<close>




lemma week_window_thursday_2025:
  "getFullYear 1736251200000 = 2025 \<and> getMonth 1736251200000 = 0
   \<and> getDate 1736251200000 = 7 \<and> getWeekNumber 1736251200000 = 1
   \<and> cycle_from Week 1736251200000 = newDate 2024 11 30
   \<and> cycle_to Week 1736251200000 = newDate 2025 0 6"
  by code_simp

text \<open>
  A year that begins on a Sunday: \<open>dayNum - 1\<close> is \<open>-1\<close>, and January 1 is moved forward to
  Monday, January 2. At 2023-01-01T00:00:00Z the window begins after the release.
\<close>

lemma week_window_sunday_2023:
  "getDay (newDate 2023 0 1) = 0 \<and> getWeekNumber (newDate 2023 0 1) = 1
   \<and> cycle_from Week (newDate 2023 0 1) = newDate 2023 0 2
   \<and> \<not> cycle_from Week (newDate 2023 0 1) \<le> newDate 2023 0 1"
  by code_simp

text \<open>
  Claim C2 at 2024-03-14T12:00:00Z with granularity month. \<^verbatim>\<open>getFirstDayOfMonth\<close> takes
  \<open>(month, year)\<close> and \<^verbatim>\<open>main\<close> calls it with \<open>(year, month)\<close>: \<^verbatim>\<open>from\<close> is
  \<^verbatim>\<open>new Date(2, 2024, 1)\<close>, month 2024 of the year 1902, that is 2070-09-01, and \<^verbatim>\<open>to\<close> is
  2071-09-01, instead of 2024-03-01 and 2024-04-01.
\<close>

theorem month_window_swapped_arguments:
  "getFullYear 1710417600000 = 2024 \<and> getMonth 1710417600000 = 2
   \<and> getDate 1710417600000 = 14
   \<and> cycle_from Month 1710417600000 = newDate 2070 8 1
   \<and> cycle_to Month 1710417600000 = newDate 2071 8 1
   \<and> cycle_from Month 1710417600000 \<noteq> newDate 2024 2 1
   \<and> cycle_to Month 1710417600000 \<noteq> newDate 2024 3 1"
  by code_simp

text \<open>The month window of any release date: the two arguments change places.\<close>

lemma month_window_as_called:
  "cycle_from Month t = newDate (getMonth t) (getFullYear t) 1
   \<and> cycle_to Month t = newDate (getMonth t + 1) (getFullYear t) 1"
  by (simp add: cycle_from_def cycle_to_def getFirstDayOfMonth_def)
section \<open>Splicing the table of contents\<close>

text \<open>
  Claim C6, as amended. If the body is \<open>b @ START_TOC @ mid @ END_TOC @ a\<close> with the
  first \<open>START_TOC\<close> of the body and the first \<open>END_TOC\<close> after it, and no replacement
  pattern begins in the table of contents, the result is
  \<open>b @ START_TOC @ \<newline> toc \<newline> @ END_TOC @ a\<close>: only \<open>mid\<close> changes. Whenever the body holds a
  pair of sentinels it has such a first pair. Without a pair the body is returned as it
  is, whatever the table of contents. If no replacement pattern begins in the table of
  contents and the table does not include \<open>END_TOC\<close>, replacing twice gives what
  replacing once gives.
\<close>

theorem toc_region_replaced:
  "(body = b @ START_TOC @ mid @ END_TOC @ a
      \<and> (\<forall>i<length b. \<not> prefix START_TOC (drop i body))
      \<and> (\<forall>i<length mid. \<not> prefix END_TOC (drop i (mid @ END_TOC)))
      \<and> \<not> includesPattern toc
    \<longrightarrow> replaceTocRegion body toc
          = b @ START_TOC @ ''\<newline>'' @ toc @ ''\<newline>'' @ END_TOC @ a)
   \<and> ((\<exists>b mid a. body = b @ START_TOC @ mid @ END_TOC @ a)
      \<longrightarrow> (\<exists>b mid a. body = b @ START_TOC @ mid @ END_TOC @ a
            \<and> (\<forall>i<length b. \<not> prefix START_TOC (drop i body))
            \<and> (\<forall>i<length mid. \<not> prefix END_TOC (drop i (mid @ END_TOC)))))
   \<and> (\<not> (\<exists>b mid a. body = b @ START_TOC @ mid @ END_TOC @ a)
      \<longrightarrow> replaceTocRegion body toc = body)
   \<and> (\<not> includesPattern toc \<and> \<not> includes_string toc END_TOC
      \<longrightarrow> replaceTocRegion (replaceTocRegion body toc) toc = replaceTocRegion body toc)"
proof (intro conjI impI)
  assume h: "body = b @ START_TOC @ mid @ END_TOC @ a
            \<and> (\<forall>i<length b. \<not> prefix START_TOC (drop i body))
            \<and> (\<forall>i<length mid. \<not> prefix END_TOC (drop i (mid @ END_TOC)))
            \<and> \<not> includesPattern toc"
  then have h1: "body = b @ START_TOC @ mid @ END_TOC @ a"
    and h2: "\<forall>i<length b. \<not> prefix START_TOC (drop i body)"
    and h3: "\<forall>i<length mid. \<not> prefix END_TOC (drop i (mid @ END_TOC))"
    and h4: "\<not> includesPattern toc"
    by blast+
  from h1 h2 h3 have "tocRegex body = Some (b, mid, a)"
    by (rule tocRegex_complete)
  with h4 show "replaceTocRegion body toc
             = b @ START_TOC @ ''\<newline>'' @ toc @ ''\<newline>'' @ END_TOC @ a"
    by (rule replaceTocRegion_match)
next
  assume "\<exists>b mid a. body = b @ START_TOC @ mid @ END_TOC @ a"
  then have "tocRegex body \<noteq> None"
    using tocRegex_present by blast
  then obtain b mid a where "tocRegex body = Some (b, mid, a)"
    by (cases "tocRegex body") auto
  then show "\<exists>b mid a. body = b @ START_TOC @ mid @ END_TOC @ a
                \<and> (\<forall>i<length b. \<not> prefix START_TOC (drop i body))
                \<and> (\<forall>i<length mid. \<not> prefix END_TOC (drop i (mid @ END_TOC)))"
    using tocRegex_sound by blast
next
  assume "\<not> (\<exists>b mid a. body = b @ START_TOC @ mid @ END_TOC @ a)"
  then have "tocRegex body = None" by (rule tocRegex_None)
  then show "replaceTocRegion body toc = body"
    by (simp add: replaceTocRegion_def)
next
  assume "\<not> includesPattern toc \<and> \<not> includes_string toc END_TOC"
  then have "\<not> includesPattern toc" and "\<not> includes_string toc END_TOC"
    by blast+
  then show "replaceTocRegion (replaceTocRegion body toc) toc = replaceTocRegion body toc"
    by (rule replaceTocRegion_idempotent)
qed

text \<open>
  The theorem on a body with a text before, an old table and a text after, with a table
  of contents whose dollar signs begin no replacement pattern; and on a body without
  sentinels, with a table of contents that is a replacement pattern.
\<close>

theorem toc_region_replaced_witness:
  "\<not> includesPattern ''- [**a$**: US$ 5](u)''
   \<and> \<not> includes_string ''- [**a$**: US$ 5](u)'' END_TOC
   \<and> replaceTocRegion (''# '' @ START_TOC @ ''old'' @ END_TOC @ ''bye'') ''- [**a$**: US$ 5](u)''
       = ''# '' @ START_TOC @ ''\<newline>- [**a$**: US$ 5](u)\<newline>'' @ END_TOC @ ''bye''
   \<and> replaceTocRegion
         (replaceTocRegion (''# '' @ START_TOC @ ''old'' @ END_TOC @ ''bye'')
            ''- [**a$**: US$ 5](u)'')
         ''- [**a$**: US$ 5](u)''
       = replaceTocRegion (''# '' @ START_TOC @ ''old'' @ END_TOC @ ''bye'')
           ''- [**a$**: US$ 5](u)''
   \<and> replaceTocRegion ''no region here'' ''$1'' = ''no region here''"
proof -
  define body where "body = ''# '' @ START_TOC @ ''old'' @ END_TOC @ ''bye''"
  define toc where "toc = ''- [**a$**: US$ 5](u)''"
  have h1: "\<not> includesPattern toc"
    unfolding toc_def by code_simp
  have h2: "\<not> includes_string toc END_TOC"
    unfolding toc_def by code_simp
  have h3: "\<forall>i<length ''# ''. \<not> prefix START_TOC (drop i body)"
    unfolding body_def START_TOC_def END_TOC_def by (simp add: less_Suc_eq)
  have h4: "\<forall>i<length ''old''. \<not> prefix END_TOC (drop i (''old'' @ END_TOC))"
    unfolding END_TOC_def by (simp add: less_Suc_eq numeral_3_eq_3)
  have h5: "\<not> (\<exists>b mid a. ''no region here'' = b @ START_TOC @ mid @ END_TOC @ a)"
  proof
    assume "\<exists>b mid a. ''no region here'' = b @ START_TOC @ mid @ END_TOC @ a"
    then obtain b mid a where "''no region here'' = b @ START_TOC @ mid @ END_TOC @ a"
      by blast
    then have "length ''no region here'' = length (b @ START_TOC @ mid @ END_TOC @ a)"
      by (rule arg_cong)
    then show False by (simp add: START_TOC_def END_TOC_def)
  qed
  have a: "replaceTocRegion body toc
           = ''# '' @ START_TOC @ ''\<newline>'' @ toc @ ''\<newline>'' @ END_TOC @ ''bye''"
    using toc_region_replaced [where body = body and b = "''# ''" and mid = "''old''"
        and a = "''bye''" and toc = toc] h1 h3 h4
    unfolding body_def by blast
  have b: "replaceTocRegion (replaceTocRegion body toc) toc = replaceTocRegion body toc"
    using toc_region_replaced [where body = body and b = "[]" and mid = "[]"
        and a = "[]" and toc = toc] h1 h2 by blast
  have c: "replaceTocRegion ''no region here'' ''$1'' = ''no region here''"
    using toc_region_replaced [where body = "''no region here''" and b = "[]" and mid = "[]"
        and a = "[]" and toc = "''$1''"] h5 by blast
  show ?thesis
    using h1 h2 a b c unfolding body_def toc_def by simp
qed

text \<open>
  Claim C6 as stated fails where the table of contents includes \<open>END_TOC\<close>, as the
  table does that is built from the comment of a release with that text in its name. No
  replacement pattern begins in this table. Spliced twice into the body of a new
  discussion, it is not what it is spliced once: the second replacement ends the region
  at the sentinel inside the table and doubles what follows it. By
  \<open>replaceTocRegion_not_idempotent\<close> this is so for every such table and every body that
  holds a pair of sentinels.
\<close>

theorem toc_region_counterexample:
  "buildToc [exampleComment ''C_1'' ''x<!-- END-RELEASE-TOC -->'' ''v1'']
     = Inr ''**Releases**\<newline>\<newline>- [**x<!-- END-RELEASE-TOC -->**: v1](https://example.test/d/1#C_1)''
   \<and> \<not> includesPattern
         ''**Releases**\<newline>\<newline>- [**x<!-- END-RELEASE-TOC -->**: v1](https://example.test/d/1#C_1)''
   \<and> replaceTocRegion
         (replaceTocRegion (discussion_body exampleDiscussion)
            ''**Releases**\<newline>\<newline>- [**x<!-- END-RELEASE-TOC -->**: v1](https://example.test/d/1#C_1)'')
         ''**Releases**\<newline>\<newline>- [**x<!-- END-RELEASE-TOC -->**: v1](https://example.test/d/1#C_1)''
       \<noteq> replaceTocRegion (discussion_body exampleDiscussion)
           ''**Releases**\<newline>\<newline>- [**x<!-- END-RELEASE-TOC -->**: v1](https://example.test/d/1#C_1)''"
  by code_simp

text \<open>
  The table of contents is pasted into the replacement pattern before the pattern is
  expanded, so a dollar sign in it that begins a replacement pattern is read as one:
  \<^verbatim>\<open>$$\<close> in a version becomes \<^verbatim>\<open>$\<close>. A dollar sign that begins none is copied.
\<close>

lemma toc_region_dollar:
  "replaceTocRegion (START_TOC @ END_TOC) ''- [**a**: US$$1](u)''
   = START_TOC @ ''\<newline>- [**a**: US$1](u)\<newline>'' @ END_TOC"
  by code_simp
section \<open>The round trip of the release marker\<close>

text \<open>
  Claim C8. Let \<open>name\<close> have no \<^verbatim>\<open>@\<close> and no line terminator, and \<open>version\<close> no line
  terminator and no \<^verbatim>\<open>" -->"\<close> (the text that ends the marker). Then the pattern of the
  release marker, applied to the rendered marker, captures \<open>name\<close> and \<open>version\<close>; it
  does so whatever follows the marker in the body of the comment; and the release read
  from the comment has the two, trimmed.
\<close>

theorem release_marker_round_trip:
  assumes "CHR ''@'' \<notin> set name"
    and "\<forall>c\<in>set name. \<not> isLineTerminator c"
    and "\<forall>c\<in>set version. \<not> isLineTerminator c"
    and "\<not> includes_string version '' -->''"
  shows "releaseItemRegex (releaseIdentifier name version) = Some (name, version)
       \<and> releaseItemRegex (releaseIdentifier name version @ rest) = Some (name, version)
       \<and> markedRelease \<lparr>comment_id = i, comment_body = releaseIdentifier name version @ rest,
                         comment_url = u\<rparr>
           = Some \<lparr>item_id = i, item_name = trim name, item_version = trim version,
                   item_url = u\<rparr>"
proof -
  have a: "releaseItemRegex (releaseIdentifier name version @ r) = Some (name, version)" for r
    using assms by (rule releaseItemRegex_round_trip)
  have "releaseItemRegex (releaseIdentifier name version) = Some (name, version)"
    using a [of "[]"] by simp
  then show ?thesis
    using a [of rest] by (simp add: markedRelease_def)
qed

text \<open>The theorem at the package \<^verbatim>\<open>mypkg\<close> and the version \<^verbatim>\<open>" v1.2.0"\<close>, which is trimmed.\<close>

theorem release_marker_round_trip_witness:
  "CHR ''@'' \<notin> set ''mypkg''
   \<and> \<not> includes_string '' v1.2.0'' '' -->''
   \<and> releaseIdentifier ''mypkg'' '' v1.2.0'' = ''<!-- release-item:mypkg@ v1.2.0 -->''
   \<and> releaseItemRegex ''<!-- release-item:mypkg@ v1.2.0 -->'' = Some (''mypkg'', '' v1.2.0'')
   \<and> markedRelease \<lparr>comment_id = ''c1'',
                     comment_body = ''<!-- release-item:mypkg@ v1.2.0 -->'' @ ''\<newline>\<newline>### notes'',
                     comment_url = ''u1''\<rparr>
       = Some \<lparr>item_id = ''c1'', item_name = ''mypkg'', item_version = ''v1.2.0'',
               item_url = ''u1''\<rparr>"
proof -
  have h1: "CHR ''@'' \<notin> set ''mypkg''" by simp
  have h2: "\<forall>c\<in>set ''mypkg''. \<not> isLineTerminator c"
    by (simp add: isLineTerminator_def)
  have h3: "\<forall>c\<in>set '' v1.2.0''. \<not> isLineTerminator c"
    by (simp add: isLineTerminator_def)
  have h4: "\<not> includes_string '' v1.2.0'' '' -->''" by code_simp
  have r: "releaseIdentifier ''mypkg'' '' v1.2.0'' = ''<!-- release-item:mypkg@ v1.2.0 -->''"
    by (simp add: releaseIdentifier_def)
  have t: "trim ''mypkg'' = ''mypkg''" "trim '' v1.2.0'' = ''v1.2.0''"
    by (simp_all add: trim_def isWhiteSpace_def)
  show ?thesis
    using release_marker_round_trip [OF h1 h2 h3 h4, of "''\<newline>\<newline>### notes''" "''c1''" "''u1''"]
      h1 h4 r t by simp
qed
section \<open>Properties of the table of contents\<close>

subsection \<open>Grouping by name and sorting the names is a stable sort\<close>

lemma mset_filter_disjoint:
  assumes "\<And>x. \<not> (P x \<and> Q x)"
  shows "mset (filter P xs) + mset (filter Q xs) = mset (filter (\<lambda>x. P x \<or> Q x) xs)"
  using assms by (induction xs) auto

lemma mset_groups:
  assumes "distinct ks"
  shows "mset (concat (map (\<lambda>k. filter (\<lambda>e. f e = k) es) ks))
         = mset (filter (\<lambda>e. f e \<in> set ks) es)"
  using assms
proof (induction ks)
  case Nil
  then show ?case by simp
next
  case (Cons k ks)
  have "mset (filter (\<lambda>e. f e = k) es) + mset (filter (\<lambda>e. f e \<in> set ks) es)
        = mset (filter (\<lambda>e. f e = k \<or> f e \<in> set ks) es)"
    using Cons.prems by (intro mset_filter_disjoint) auto
  then show ?case using Cons by simp
qed

lemma filter_groups:
  assumes "distinct ks"
  shows "filter (\<lambda>x. f x = c) (concat (map (\<lambda>k. filter (\<lambda>e. f e = k) es) ks))
         = (if c \<in> set ks then filter (\<lambda>e. f e = c) es else [])"
  using assms
proof (induction ks)
  case Nil
  then show ?case by simp
next
  case (Cons k ks)
  have a: "filter (\<lambda>x. f x = c) (filter (\<lambda>e. f e = k) es)
           = (if k = c then filter (\<lambda>e. f e = c) es else [])"
    by (induction es) auto
  show ?case using Cons a by auto
qed

lemma group_keys: "f ` set (filter (\<lambda>e. f e = k) es) \<subseteq> {k}"
  by auto

lemma groups_keys: "f ` set (concat (map (\<lambda>k. filter (\<lambda>e. f e = k) es) ks)) \<subseteq> set ks"
  by auto

lemma sorted_group:
  fixes f :: "'a \<Rightarrow> 'k::linorder"
  shows "sorted (map f (filter (\<lambda>e. f e = k) es))"
  by (induction es) simp_all

lemma sorted_groups:
  fixes f :: "'a \<Rightarrow> 'k::linorder"
  assumes "sorted ks"
  shows "sorted (map f (concat (map (\<lambda>k. filter (\<lambda>e. f e = k) es) ks)))"
  using assms
proof (induction ks)
  case Nil
  then show ?case by simp
next
  case (Cons k ks)
  define A where "A = map f (filter (\<lambda>e. f e = k) es)"
  define B where "B = map f (concat (map (\<lambda>k. filter (\<lambda>e. f e = k) es) ks))"
  have sk: "sorted ks" and le: "\<forall>y\<in>set ks. k \<le> y"
    using Cons.prems by simp_all
  have a: "sorted A"
    unfolding A_def by (rule sorted_group)
  have b: "sorted B"
    unfolding B_def using sk by (rule Cons.IH)
  have sa: "set A \<subseteq> {k}"
    unfolding A_def using group_keys [of f k es] by simp
  have sb: "set B \<subseteq> set ks"
    unfolding B_def using groups_keys [of f es ks] by simp
  have "\<forall>x\<in>set A. \<forall>y\<in>set B. x \<le> y"
    using sa sb le by blast
  then have "sorted (A @ B)"
    using a b by (simp only: sorted_append simp_thms)
  then show ?case
    unfolding A_def B_def by simp
qed

lemma groups_are_stable_sort:
  fixes f :: "'a \<Rightarrow> 'k::linorder"
  assumes "sorted ks" "distinct ks" "set ks = f ` set es"
  shows "concat (map (\<lambda>k. filter (\<lambda>e. f e = k) es) ks) = sort_key f es"
proof -
  define ys where "ys = concat (map (\<lambda>k. filter (\<lambda>e. f e = k) es) ks)"
  have "filter (\<lambda>e. f e \<in> set ks) es = es"
    using assms(3) by (simp add: filter_id_conv)
  then have m: "mset ys = mset es"
    unfolding ys_def using mset_groups [OF assms(2), of f es] by simp
  have s: "sorted (map f ys)"
    unfolding ys_def using assms(1) by (rule sorted_groups)
  have g: "filter (\<lambda>x. f k = f x) ys = filter (\<lambda>x. f k = f x) es" if "k \<in> set ys" for k
  proof -
    have "k \<in> set es" using that m by (metis mset_eq_setD)
    then have "f k \<in> set ks" using assms(3) by simp
    then have "filter (\<lambda>x. f x = f k) ys = filter (\<lambda>x. f x = f k) es"
      unfolding ys_def using filter_groups [OF assms(2), of f "f k" es] by simp
    then show ?thesis by (simp add: eq_commute)
  qed
  have "sort_key f es = ys"
    using m g s by (rule properties_for_sort_key)
  then show ?thesis unfolding ys_def by simp
qed

subsection \<open>The loop that fills the object\<close>

lemma grouped_empty: "grouped [] []"
  by (simp add: grouped_def)

lemma grouped_lookup:
  assumes "grouped R es" "k \<in> set (map fst R)"
  shows "map_of R k = Some (filter (\<lambda>e. item_name e = k) es)"
proof -
  obtain v where v: "(k, v) \<in> set R"
    using assms(2) by auto
  then have "v = filter (\<lambda>e. item_name e = k) es"
    using assms(1) unfolding grouped_def by blast
  moreover have "map_of R k = Some v"
    using assms(1) v unfolding grouped_def by (intro map_of_is_SomeI) simp_all
  ultimately show ?thesis by simp
qed

lemma pushRelease_known:
  assumes g: "grouped R es" and n: "item_name e = name" and k: "name \<in> set (map fst R)"
  shows "\<exists>R'. pushRelease R name e = Inr R' \<and> grouped R' (es @ [e])"
proof -
  define R' where "R' = map (\<lambda>(k, v). if k = name then (k, v @ [e]) else (k, v)) R"
  have l: "map_of R name = Some (filter (\<lambda>e. item_name e = name) es)"
    using g k by (rule grouped_lookup)
  have p: "pushRelease R name e = Inr R'"
    unfolding pushRelease_def R'_def l by simp
  have f: "map fst R' = map fst R"
    unfolding R'_def by (induction R) auto
  have d: "distinct (map fst R')"
    using g unfolding f grouped_def by simp
  have "name \<in> item_name ` set es"
    using g k unfolding grouped_def by simp
  then have s: "set (map fst R') = item_name ` set (es @ [e])"
    using g n unfolding f grouped_def by auto
  have v: "v' = filter (\<lambda>x. item_name x = k') (es @ [e])" if mem: "(k', v') \<in> set R'" for k' v'
  proof -
    obtain v where v: "(k', v) \<in> set R" "v' = (if k' = name then v @ [e] else v)"
      using mem unfolding R'_def by (auto split: if_splits)
    have "v = filter (\<lambda>x. item_name x = k') es"
      using g v(1) unfolding grouped_def by blast
    then show ?thesis using v(2) n by auto
  qed
  have "grouped R' (es @ [e])"
    unfolding grouped_def using d s v by blast
  then show ?thesis using p by blast
qed

lemma pushRelease_new:
  assumes g: "grouped R es" and n: "item_name e = name" and k: "name \<notin> set (map fst R)"
    and o: "name \<notin> set ObjectPrototypeNames"
  shows "\<exists>R'. pushRelease R name e = Inr R' \<and> grouped R' (es @ [e])"
proof -
  define R' where "R' = R @ [(name, [e])]"
  have l: "map_of R name = None"
    using k by (simp add: map_of_eq_None_iff)
  have p: "pushRelease R name e = Inr R'"
    unfolding pushRelease_def R'_def l using o by simp
  have d: "distinct (map fst R')"
    using g k unfolding R'_def grouped_def by simp
  have s: "set (map fst R') = item_name ` set (es @ [e])"
    using g n unfolding R'_def grouped_def by auto
  have none: "filter (\<lambda>x. item_name x = name) es = []"
    using g k unfolding grouped_def by (auto simp: filter_empty_conv)
  have v: "v' = filter (\<lambda>x. item_name x = k') (es @ [e])" if "(k', v') \<in> set R'" for k' v'
  proof (cases "(k', v') \<in> set R")
    case True
    then have "v' = filter (\<lambda>x. item_name x = k') es"
      using g unfolding grouped_def by blast
    moreover have "k' \<noteq> name"
      using True k by force
    ultimately show ?thesis using n by simp
  next
    case False
    then have "k' = name" "v' = [e]"
      using that unfolding R'_def by simp_all
    then show ?thesis using none n by simp
  qed
  have "grouped R' (es @ [e])"
    unfolding grouped_def using d s v by blast
  then show ?thesis using p by blast
qed

lemma pushRelease_prototype:
  assumes "grouped R es" and "\<forall>x\<in>set es. item_name x \<notin> set ObjectPrototypeNames"
    and "name \<in> set ObjectPrototypeNames"
  shows "pushRelease R name e = Inl (Error ''releases[name].push is not a function'')"
proof -
  have "name \<notin> set (map fst R)"
    using assms unfolding grouped_def by auto
  then have "map_of R name = None"
    by (simp add: map_of_eq_None_iff)
  then show ?thesis
    unfolding pushRelease_def using assms(3) by simp
qed

lemma markedReleases_Cons:
  "markedReleases (c # cs) =
     (case markedRelease c of None \<Rightarrow> markedReleases cs | Some e \<Rightarrow> e # markedReleases cs)"
  by (simp add: markedReleases_def map_filter_simps split: option.splits)

lemma collectReleases_Cons:
  "collectReleases (c # cs) R =
     (case markedRelease c of
        None \<Rightarrow> collectReleases cs R
      | Some e \<Rightarrow> (case pushRelease R (item_name e) e of
                     Inl err \<Rightarrow> Inl err
                   | Inr R' \<Rightarrow> collectReleases cs R'))"
  by (simp add: markedRelease_def split: option.splits)

lemma collectReleases_grouped:
  assumes "grouped R es"
    and "\<forall>e\<in>set (markedReleases cs). item_name e \<notin> set ObjectPrototypeNames"
  shows "\<exists>R'. collectReleases cs R = Inr R' \<and> grouped R' (es @ markedReleases cs)"
  using assms
proof (induction cs arbitrary: R es)
  case Nil
  then show ?case by (simp add: markedReleases_def map_filter_simps)
next
  case (Cons c cs)
  show ?case
  proof (cases "markedRelease c")
    case None
    then show ?thesis
      using Cons by (simp add: markedReleases_Cons collectReleases_Cons del: collectReleases.simps)
  next
    case (Some e)
    have m: "markedReleases (c # cs) = e # markedReleases cs"
      using Some by (simp add: markedReleases_Cons)
    have o: "item_name e \<notin> set ObjectPrototypeNames"
      and rest: "\<forall>e\<in>set (markedReleases cs). item_name e \<notin> set ObjectPrototypeNames"
      using Cons.prems(2) unfolding m by simp_all
    obtain R1 where R1: "pushRelease R (item_name e) e = Inr R1" "grouped R1 (es @ [e])"
    proof (cases "item_name e \<in> set (map fst R)")
      case True
      then show ?thesis
        using pushRelease_known [OF Cons.prems(1) refl True] that by blast
    next
      case False
      then show ?thesis
        using pushRelease_new [OF Cons.prems(1) refl False o] that by blast
    qed
    obtain R' where "collectReleases cs R1 = Inr R'"
      "grouped R' ((es @ [e]) @ markedReleases cs)"
      using Cons.IH [OF R1(2) rest] by blast
    then show ?thesis
      using Some R1(1) unfolding m
      by (simp add: collectReleases_Cons del: collectReleases.simps)
  qed
qed

lemma collectReleases_prototype:
  assumes "grouped R es"
    and "\<forall>x\<in>set es. item_name x \<notin> set ObjectPrototypeNames"
    and "\<exists>e\<in>set (markedReleases cs). item_name e \<in> set ObjectPrototypeNames"
  shows "collectReleases cs R = Inl (Error ''releases[name].push is not a function'')"
  using assms
proof (induction cs arbitrary: R es)
  case Nil
  then show ?case by (simp add: markedReleases_def map_filter_simps)
next
  case (Cons c cs)
  show ?case
  proof (cases "markedRelease c")
    case None
    then show ?thesis
      using Cons by (simp add: markedReleases_Cons collectReleases_Cons del: collectReleases.simps)
  next
    case (Some e)
    have m: "markedReleases (c # cs) = e # markedReleases cs"
      using Some by (simp add: markedReleases_Cons)
    show ?thesis
    proof (cases "item_name e \<in> set ObjectPrototypeNames")
      case True
      then have "pushRelease R (item_name e) e
                 = Inl (Error ''releases[name].push is not a function'')"
        using Cons.prems(1,2) by (intro pushRelease_prototype)
      then show ?thesis
        using Some by (simp add: collectReleases_Cons del: collectReleases.simps)
    next
      case False
      then have rest: "\<exists>e\<in>set (markedReleases cs). item_name e \<in> set ObjectPrototypeNames"
        using Cons.prems(3) unfolding m by auto
      obtain R1 where R1: "pushRelease R (item_name e) e = Inr R1" "grouped R1 (es @ [e])"
      proof (cases "item_name e \<in> set (map fst R)")
        case True
        then show ?thesis
          using pushRelease_known [OF Cons.prems(1) refl True] that by blast
      next
        case F: False
        then show ?thesis
          using pushRelease_new [OF Cons.prems(1) refl F False] that by blast
      qed
      have "\<forall>x\<in>set (es @ [e]). item_name x \<notin> set ObjectPrototypeNames"
        using Cons.prems(2) False by simp
      then have "collectReleases cs R1 = Inl (Error ''releases[name].push is not a function'')"
        using R1(2) rest by (intro Cons.IH)
      then show ?thesis
        using Some R1(1) by (simp add: collectReleases_Cons del: collectReleases.simps)
    qed
  qed
qed

subsection \<open>The lines and the block\<close>

lemma tocLines_grouped:
  assumes "grouped R es"
  shows "tocLines R = ''**Releases**\<newline>'' # map bullet (sort_key item_name es)"
proof -
  define ks where "ks = sort (map fst R)"
  have ks: "sorted ks" "distinct ks" "set ks = item_name ` set es"
    using assms unfolding ks_def grouped_def by simp_all
  have "map (\<lambda>name. case map_of R name of Some items \<Rightarrow> map bullet items | None \<Rightarrow> []) ks
        = map (\<lambda>k. map bullet (filter (\<lambda>e. item_name e = k) es)) ks"
  proof (rule map_cong [OF refl])
    fix k assume "k \<in> set ks"
    then have "k \<in> set (map fst R)" unfolding ks_def by simp
    then have "map_of R k = Some (filter (\<lambda>e. item_name e = k) es)"
      using assms by (intro grouped_lookup)
    then show "(case map_of R k of Some items \<Rightarrow> map bullet items | None \<Rightarrow> [])
               = map bullet (filter (\<lambda>e. item_name e = k) es)"
      by simp
  qed
  then have "concat (map (\<lambda>name. case map_of R name of Some items \<Rightarrow> map bullet items
                                   | None \<Rightarrow> []) ks)
        = concat (map (\<lambda>k. map bullet (filter (\<lambda>e. item_name e = k) es)) ks)"
    by (rule arg_cong)
  also have "\<dots> = map bullet (concat (map (\<lambda>k. filter (\<lambda>e. item_name e = k) es) ks))"
    by (simp add: map_concat comp_def)
  also have "\<dots> = map bullet (sort_key item_name es)"
    using groups_are_stable_sort [OF ks] by simp
  finally show ?thesis
    unfolding tocLines_def ks_def by simp
qed

lemma trim_id:
  assumes "s \<noteq> []" "\<not> isWhiteSpace (hd s)" "\<not> isWhiteSpace (last s)"
  shows "trim s = s"
proof -
  have a: "dropWhile isWhiteSpace s = s"
    using assms(1,2) by (cases s) simp_all
  have "rev s \<noteq> []" "\<not> isWhiteSpace (hd (rev s))"
    using assms(1,3) by (simp_all add: hd_rev)
  then have "dropWhile isWhiteSpace (rev s) = rev s"
    by (cases "rev s") simp_all
  then show ?thesis
    unfolding trim_def a by simp
qed

lemma join_last:
  assumes "bs \<noteq> []" "\<forall>b\<in>set bs. b \<noteq> []"
  shows "join sep bs \<noteq> [] \<and> last (join sep bs) = last (last bs)"
  using assms by (induction sep bs rule: join.induct) simp_all

lemma bullet_last: "bullet r \<noteq> [] \<and> last (bullet r) = CHR '')''"
  by (simp add: bullet_def)

lemma trim_toc:
  "trim (join ''\<newline>'' (''**Releases**\<newline>'' # map bullet items))
   = (if items = [] then ''**Releases**''
      else ''**Releases**\<newline>\<newline>'' @ join ''\<newline>'' (map bullet items))"
proof (cases items)
  case Nil
  then show ?thesis
    by (simp add: trim_def isWhiteSpace_def)
next
  case (Cons r rs)
  define bs where "bs = map bullet items"
  have bs: "bs \<noteq> []" "\<forall>b\<in>set bs. b \<noteq> []"
    unfolding bs_def using bullet_last Cons by auto
  have l: "join ''\<newline>'' bs \<noteq> []" "last (join ''\<newline>'' bs) = last (last bs)"
    using join_last [OF bs] by simp_all
  have "last bs \<in> set bs" using bs(1) by simp
  then have "last (last bs) = CHR '')''"
    unfolding bs_def using bullet_last by auto
  then have e: "last (join ''\<newline>'' bs) = CHR '')''"
    using l(2) by simp
  define s where "s = ''**Releases**\<newline>\<newline>'' @ join ''\<newline>'' bs"
  have j: "join ''\<newline>'' (''**Releases**\<newline>'' # bs) = s"
    unfolding s_def using bs(1) by (cases bs) simp_all
  have "s \<noteq> []" "hd s = CHR ''*''" "last s = CHR '')''"
    unfolding s_def using l(1) e by simp_all
  then have "trim s = s"
    by (intro trim_id) (simp_all add: isWhiteSpace_def)
  then have "trim (join ''\<newline>'' (''**Releases**\<newline>'' # bs)) = s"
    unfolding j .
  then show ?thesis
    unfolding bs_def s_def using Cons by simp
qed

text \<open>
  The code against the specification. If no marked release has a name that is a property
  of \<^verbatim>\<open>Object.prototype\<close>, the table of contents is built and is the block of the
  specification; if one has, the loop throws.
\<close>

lemma buildToc_rendered:
  assumes "\<forall>e\<in>set (markedReleases comments). item_name e \<notin> set ObjectPrototypeNames"
  shows "buildToc comments = Inr (renderTocBlock (markedReleases comments))"
proof -
  obtain R where R: "collectReleases comments [] = Inr R"
    "grouped R ([] @ markedReleases comments)"
    using collectReleases_grouped [OF grouped_empty assms] by blast
  have t: "tocLines R
           = ''**Releases**\<newline>'' # map bullet (sort_key item_name (markedReleases comments))"
    using R(2) by (simp add: tocLines_grouped)
  have e: "sort_key item_name (markedReleases comments) = [] \<longleftrightarrow> markedReleases comments = []"
    by (metis length_sort length_0_conv)
  show ?thesis
    unfolding buildToc_def R(1) renderTocBlock_def
    by (simp only: sum.case t trim_toc e)
qed

lemma buildToc_prototype:
  assumes "\<exists>e\<in>set (markedReleases comments). item_name e \<in> set ObjectPrototypeNames"
  shows "buildToc comments = Inl (Error ''releases[name].push is not a function'')"
proof -
  have "collectReleases comments [] = Inl (Error ''releases[name].push is not a function'')"
    using grouped_empty _ assms by (rule collectReleases_prototype) simp
  then show ?thesis
    unfolding buildToc_def by simp
qed

section \<open>The rendered block\<close>

text \<open>
  Claim C5 at a comment list the store can return: one comment, the comment of a release
  named \<^verbatim>\<open>constructor\<close>. \<^verbatim>\<open>releases["constructor"]\<close> is the inherited function
  \<^verbatim>\<open>Object\<close>, \<^verbatim>\<open>??=\<close> leaves it, \<^verbatim>\<open>push\<close> is not a function of it: no block is rendered
  and the invocation fails. By \<open>buildToc_prototype\<close> this is so for every list with such
  a name, and by \<open>buildToc_rendered\<close> the block is the one of the claim for every other
  list.
\<close>

theorem toc_fails_on_prototype_name:
  "buildToc [\<lparr>comment_id = ''c1'',
             comment_body = ''<!-- release-item:constructor@v1.0.0 -->\<newline>\<newline>### constructor@v1.0.0'',
             comment_url = ''https://example.test/d/1#c1''\<rparr>]
   = Inl (Error ''releases[name].push is not a function'')"
  by code_simp

text \<open>The example of the specification, with a comment that has no marker.\<close>

lemma toc_block_example:
  "buildToc
     [\<lparr>comment_id = ''1'', comment_body = ''<!-- release-item:B-release@1.0 -->'', comment_url = ''u1''\<rparr>,
      \<lparr>comment_id = ''2'', comment_body = ''<!-- release-item:A-release@1.0 -->'', comment_url = ''u2''\<rparr>,
      \<lparr>comment_id = ''3'', comment_body = ''a comment of a reader'', comment_url = ''u3''\<rparr>,
      \<lparr>comment_id = ''4'', comment_body = ''<!-- release-item:A-release@2.0 -->'', comment_url = ''u4''\<rparr>]
   = Inr ''**Releases**\<newline>\<newline>- [**A-release**: 1.0](u2)\<newline>- [**A-release**: 2.0](u4)\<newline>- [**B-release**: 1.0](u1)''"
  by code_simp
section \<open>Properties of the reconciler\<close>

subsection \<open>The calls of each part\<close>

lemma find_includes:
  "find P xs = Some x \<Longrightarrow> x \<in> set xs \<and> P x"
  by (induction xs) (auto split: if_splits)

lemma find_none: "find P xs = None \<longleftrightarrow> (\<forall>x\<in>set xs. \<not> P x)"
  by (induction xs) auto

lemma reconcileToc_calls:
  "\<exists>more. snd (reconcileToc rs d comments calls) = calls @ more
          \<and> (more = [] \<or> (\<exists>b. more = [UpdateDiscussion (discussion_id d) b]))"
  unfolding reconcileToc_def
  by (auto simp: Let_def split: sum.splits)

lemma mutateComments_calls:
  "snd (mutateComments rs isDelete found comments did body) = []
   \<or> (\<exists>c. snd (mutateComments rs isDelete found comments did body) = [DeleteDiscussionComment c])
   \<or> (\<exists>c b. snd (mutateComments rs isDelete found comments did body) = [UpdateDiscussionComment c b])
   \<or> (\<exists>b. snd (mutateComments rs isDelete found comments did body) = [AddDiscussionComment did b])"
  unfolding mutateComments_def
  by (auto split: option.splits sum.splits)

lemma resolveComment_failed:
  "getDiscussionById rs (discussion_id d) = Inl e \<Longrightarrow>
     resolveComment rs p d calls
     = (Failed (message e), calls @ [GetDiscussionById (discussion_id d)])"
  unfolding resolveComment_def by (simp add: Let_def)

lemma resolveComment_fetched:
  assumes "getDiscussionById rs (discussion_id d) = Inr comments"
    and "mutateComments rs (action p = ''deleted'')
           (find (\<lambda>node. includes_string (comment_body node)
                    (releaseIdentifier (release_name (release p)) (tag_name (release p))))
              comments)
           comments (discussion_id d) (commentBody p) = (x, cs)"
  shows "resolveComment rs p d calls
     = (case x of
          Inl e \<Rightarrow> (Failed (message e), calls @ GetDiscussionById (discussion_id d) # cs)
        | Inr comments' \<Rightarrow>
            reconcileToc rs d comments' (calls @ GetDiscussionById (discussion_id d) # cs))"
  unfolding resolveComment_def using assms by (simp add: Let_def split: sum.splits)

lemma resolveComment_calls:
  "\<exists>more. snd (resolveComment rs p d calls) = calls @ GetDiscussionById (discussion_id d) # more
          \<and> (\<forall>c\<in>set more. \<not> isGetDiscussionById c \<and> \<not> isCreateDiscussion c)"
proof (cases "getDiscussionById rs (discussion_id d)")
  case (Inl e)
  then show ?thesis
    by (simp add: resolveComment_failed)
next
  case (Inr comments)
  obtain x cs where m: "mutateComments rs (action p = ''deleted'')
           (find (\<lambda>node. includes_string (comment_body node)
                    (releaseIdentifier (release_name (release p)) (tag_name (release p))))
              comments)
           comments (discussion_id d) (commentBody p) = (x, cs)"
    by (cases "mutateComments rs (action p = ''deleted'')
           (find (\<lambda>node. includes_string (comment_body node)
                    (releaseIdentifier (release_name (release p)) (tag_name (release p))))
              comments)
           comments (discussion_id d) (commentBody p)") blast
  have ms: "\<forall>c\<in>set cs. \<not> isGetDiscussionById c \<and> \<not> isCreateDiscussion c"
    using mutateComments_calls [of rs "action p = ''deleted''"
        "find (\<lambda>node. includes_string (comment_body node)
                    (releaseIdentifier (release_name (release p)) (tag_name (release p))))
              comments"
        comments "discussion_id d" "commentBody p"]
    unfolding m by auto
  note r = resolveComment_fetched [OF Inr m, of calls]
  show ?thesis
  proof (cases x)
    case (Inl e)
    then have "snd (resolveComment rs p d calls)
               = calls @ GetDiscussionById (discussion_id d) # cs"
      unfolding r by simp
    then show ?thesis using ms by blast
  next
    case x: (Inr comments')
    obtain more where more:
      "snd (reconcileToc rs d comments' (calls @ GetDiscussionById (discussion_id d) # cs))
       = (calls @ GetDiscussionById (discussion_id d) # cs) @ more"
      "more = [] \<or> (\<exists>b. more = [UpdateDiscussion (discussion_id d) b])"
      using reconcileToc_calls by blast
    have "snd (resolveComment rs p d calls)
          = calls @ GetDiscussionById (discussion_id d) # (cs @ more)"
      unfolding r x using more(1) by simp
    moreover have "\<forall>c\<in>set (cs @ more). \<not> isGetDiscussionById c \<and> \<not> isCreateDiscussion c"
      using ms more(2) by auto
    ultimately show ?thesis by blast
  qed
qed

lemma main_draft: "draft (release p) \<Longrightarrow> main i rs p = (Succeeded, [])"
  by (simp add: main_def)

lemma main_searched:
  assumes "\<not> draft (release p)"
    and "getRepository rs (owner i) (repo i) (input_category i) = Inr repository"
    and "discussionCategory repository = Some cat"
    and "searchDiscussions rs (input_repo i) (category_name cat)
           (cycle_from (cycleLength i) (published_at (release p)))
           (cycle_to (cycleLength i) (published_at (release p)))
           (cycleIdentifier (getCycleId (published_at (release p)) (cycleLength i)))
         = Inr searchResult"
  shows "main i rs p =
     resolveDiscussion rs p repository cat
       (cycleIdentifier (getCycleId (published_at (release p)) (cycleLength i)))
       (getCycleName (monthLong i) (published_at (release p)) (cycleLength i))
       searchResult
       [GetRepository (owner i) (repo i) (input_category i),
        SearchDiscussions (input_repo i) (category_name cat)
          (cycle_from (cycleLength i) (published_at (release p)))
          (cycle_to (cycleLength i) (published_at (release p)))
          (cycleIdentifier (getCycleId (published_at (release p)) (cycleLength i)))]"
  unfolding main_def using assms by (simp add: Let_def)

lemma main_fetches_once:
  "length (filter isGetDiscussionById (snd (main i rs p))) \<le> 1"
proof -
  have rc: "length (filter isGetDiscussionById (snd (resolveComment rs p d calls))) \<le> 1"
    if "\<forall>c\<in>set calls. \<not> isGetDiscussionById c" for d calls
  proof -
    obtain more where
      "snd (resolveComment rs p d calls) = calls @ GetDiscussionById (discussion_id d) # more"
      "\<forall>c\<in>set more. \<not> isGetDiscussionById c \<and> \<not> isCreateDiscussion c"
      using resolveComment_calls by blast
    then show ?thesis using that by (simp add: filter_empty_conv [THEN iffD2])
  qed
  have rd: "length (filter isGetDiscussionById
              (snd (resolveDiscussion rs p r c m n sr calls))) \<le> 1"
    if "\<forall>c\<in>set calls. \<not> isGetDiscussionById c" for r c m n sr calls
    unfolding resolveDiscussion_def using that rc
    by (auto simp: Let_def filter_empty_conv [THEN iffD2] split: option.splits sum.splits)
  show ?thesis
    unfolding main_def using rd
    by (auto simp: Let_def split: option.splits sum.splits)
qed

subsection \<open>Lists keyed by an identifier\<close>

lemma filter_key_once:
  "distinct (map f xs) \<Longrightarrow> x \<in> set xs \<Longrightarrow> length (filter (\<lambda>y. f y = f x) xs) = 1"
proof (induction xs)
  case Nil
  then show ?case by simp
next
  case (Cons a xs)
  show ?case
  proof (cases "f a = f x")
    case True
    have "f a \<notin> f ` set xs"
      using Cons.prems(1) by simp
    then have "\<forall>y\<in>set xs. f y \<noteq> f x"
      unfolding True by (metis imageI)
    then have "filter (\<lambda>y. f y = f x) xs = []"
      by (simp add: filter_empty_conv)
    then show ?thesis using True by simp
  next
    case False
    then have "x \<in> set xs" using Cons.prems(2) by auto
    then show ?thesis using Cons False by simp
  qed
qed

lemma replace_by_key:
  assumes d: "distinct (map f xs)" and k: "k < length xs" and e: "f y = f (xs ! k)"
  shows "map (\<lambda>x. if f x = f y then y else x) xs = xs[k := y]"
proof (rule nth_equalityI)
  show "length (map (\<lambda>x. if f x = f y then y else x) xs) = length (xs[k := y])"
    by simp
next
  fix j assume "j < length (map (\<lambda>x. if f x = f y then y else x) xs)"
  then have j: "j < length xs" by simp
  show "map (\<lambda>x. if f x = f y then y else x) xs ! j = xs[k := y] ! j"
  proof (cases "j = k")
    case True
    then show ?thesis using k e by simp
  next
    case False
    have "map f xs ! j \<noteq> map f xs ! k"
      using d j k False by (simp add: nth_eq_iff_index_eq del: nth_map)
    then have "f (xs ! j) \<noteq> f y"
      using j k e by simp
    then show ?thesis using j False by simp
  qed
qed

subsection \<open>The example store\<close>

lemma example_facts:
  "owner exampleInputs = ''magicbell-io''"
  "repo exampleInputs = Some ''community''"
  "input_category exampleInputs = ''product-changelog''"
  "input_repo exampleInputs = ''magicbell-io/community''"
  "cycleLength exampleInputs = Week"
  "published_at (release (examplePayload act isDraft)) = 1710417600000"
  "draft (release (examplePayload act isDraft)) = isDraft"
  "action (examplePayload act isDraft) = act"
  "release_name (release (examplePayload act isDraft)) = ''mypkg''"
  "tag_name (release (examplePayload act isDraft)) = ''v1.2.0''"
  by (simp_all add: exampleInputs_def examplePayload_def exampleRelease_def owner_def repo_def
      cycleLength_def)

lemma example_cycle:
  "cycle_from Week 1710417600000 = 1710115200000"
  "cycle_to Week 1710417600000 = 1710720000000"
  "cycleIdentifier (getCycleId 1710417600000 Week) = ''<!-- release-cycle:2024W11 -->''"
  "getCycleName (monthLong exampleInputs) 1710417600000 Week = ''2024 Week 11''"
  by code_simp+

lemma example_store:
  "getRepository (exampleStore found held) ownerName repoName slug = Inr exampleRepository"
  "searchDiscussions (exampleStore found held) fullName categoryName f t s = Inr found"
  "getDiscussionById (exampleStore found held) x = Inr held"
  "deleteDiscussionComment (exampleStore found held) x = Inr ()"
  "updateDiscussion (exampleStore found held) x y = Inr ()"
  "createDiscussion (exampleStore found held) rid cid title b
     = Inr \<lparr>discussion_id = ''D_new'', discussion_title = title, discussion_body = b,
            discussion_url = ''https://example.test/d/new''\<rparr>"
  "addDiscussionComment (exampleStore found held) x b
     = Inr \<lparr>comment_id = ''C_new'', comment_body = b,
            comment_url = ''https://example.test/d/1#C_new''\<rparr>"
  "updateDiscussionComment (exampleStore found held) x b
     = Inr \<lparr>comment_id = x, comment_body = b, comment_url = ''https://example.test/d/1#'' @ x\<rparr>"
  by (simp_all add: exampleStore_def)

lemma example_comments:
  "includes_string (comment_body (exampleComment ''C_1'' ''mypkg'' ''v1.2.0''))
     ''<!-- release-item:mypkg@v1.2.0 -->''"
  "\<not> includes_string (comment_body (exampleComment ''C_2'' ''mypkg'' ''v1.3.0''))
     ''<!-- release-item:mypkg@v1.2.0 -->''"
  "comment_id (exampleComment cid name version) = cid"
  by code_simp+

lemma example_tocs:
  "buildToc [exampleComment ''C_2'' ''mypkg'' ''v1.3.0'']
   = Inr ''**Releases**\<newline>\<newline>- [**mypkg**: v1.3.0](https://example.test/d/1#C_2)''"
  "buildToc [exampleComment ''C_1'' ''mypkg'' ''v1.2.0'']
   = Inr ''**Releases**\<newline>\<newline>- [**mypkg**: v1.2.0](https://example.test/d/1#C_1)''"
  by code_simp+
section \<open>Draft releases\<close>

text \<open>
  Claim C9. When the release of the event is a draft, \<^verbatim>\<open>main\<close> returns at once: the
  invocation succeeds and has made no remote call.
\<close>

theorem draft_release_skipped:
  "draft (release p) \<Longrightarrow> main i rs p = (Succeeded, [])"
  by (rule main_draft)

text \<open>The theorem at a draft of the example release.\<close>

theorem draft_release_skipped_witness:
  "draft (release (examplePayload ''created'' True))
   \<and> main exampleInputs (exampleStore [exampleDiscussion] []) (examplePayload ''created'' True)
       = (Succeeded, [])"
proof -
  have h: "draft (release (examplePayload ''created'' True))"
    by (simp add: examplePayload_def exampleRelease_def)
  show ?thesis
    using draft_release_skipped [OF h] h by simp
qed
section \<open>The discussion of the cycle\<close>

text \<open>
  Claim C3. Let the release not be a draft, the category be found and the search return
  \<open>searchResult\<close>. If some result includes the cycle marker in its body, the discussion
  that \<^verbatim>\<open>main\<close> goes on with is a result that includes it, and no discussion is created.
  If no result includes it, the third call creates a discussion with the title
  \<^verbatim>\<open>Releases - \<close> followed by the name of the cycle and with the body made of the marker,
  an empty line and the two sentinels; \<^verbatim>\<open>main\<close> goes on with the discussion the store
  returns.
\<close>

theorem discussion_found_or_created:
  assumes nd: "\<not> draft (release p)"
    and rp: "getRepository rs (owner i) (repo i) (input_category i) = Inr repository"
    and ct: "discussionCategory repository = Some cat"
    and mk: "marker = cycleIdentifier (getCycleId (published_at (release p)) (cycleLength i))"
    and nm: "cycleName = getCycleName (monthLong i) (published_at (release p)) (cycleLength i)"
    and cs: "calls = [GetRepository (owner i) (repo i) (input_category i),
                      SearchDiscussions (input_repo i) (category_name cat)
                        (cycle_from (cycleLength i) (published_at (release p)))
                        (cycle_to (cycleLength i) (published_at (release p))) marker]"
    and sr: "searchDiscussions rs (input_repo i) (category_name cat)
               (cycle_from (cycleLength i) (published_at (release p)))
               (cycle_to (cycleLength i) (published_at (release p))) marker = Inr searchResult"
    and cr: "create = CreateDiscussion (repository_id repository) (category_id cat)
               (''Releases - '' @ cycleName)
               (marker @ ''\<newline>\<newline><!-- START-RELEASE-TOC -->\<newline><!-- END-RELEASE-TOC -->'')"
  shows "((\<exists>d\<in>set searchResult. includes_string (discussion_body d) marker)
            \<longrightarrow> (\<exists>d\<in>set searchResult. includes_string (discussion_body d) marker
                   \<and> main i rs p = resolveComment rs p d calls
                   \<and> (\<forall>c\<in>set (snd (main i rs p)). \<not> isCreateDiscussion c)))
       \<and> ((\<forall>d\<in>set searchResult. \<not> includes_string (discussion_body d) marker)
            \<longrightarrow> take 3 (snd (main i rs p)) = calls @ [create]
              \<and> (\<forall>d. createDiscussion rs (repository_id repository) (category_id cat)
                         (''Releases - '' @ cycleName)
                         (marker @ ''\<newline>\<newline><!-- START-RELEASE-TOC -->\<newline><!-- END-RELEASE-TOC -->'')
                       = Inr d
                    \<longrightarrow> main i rs p = resolveComment rs p d (calls @ [create])))"
proof -
  have m: "main i rs p = resolveDiscussion rs p repository cat marker cycleName searchResult calls"
    unfolding mk nm cs using main_searched [OF nd rp ct] sr unfolding mk by simp
  have found: "\<exists>d\<in>set searchResult. includes_string (discussion_body d) marker
                 \<and> main i rs p = resolveComment rs p d calls
                 \<and> (\<forall>c\<in>set (snd (main i rs p)). \<not> isCreateDiscussion c)"
    if ex: "\<exists>d\<in>set searchResult. includes_string (discussion_body d) marker"
  proof -
    have "find (\<lambda>node. includes_string (discussion_body node) marker) searchResult \<noteq> None"
      using ex by (simp add: find_none)
    then obtain d where d: "find (\<lambda>node. includes_string (discussion_body node) marker)
                              searchResult = Some d"
      by blast
    have a: "d \<in> set searchResult \<and> includes_string (discussion_body d) marker"
      using find_includes [OF d] .
    have b: "main i rs p = resolveComment rs p d calls"
      unfolding m resolveDiscussion_def d by simp
    obtain more where
      "snd (resolveComment rs p d calls) = calls @ GetDiscussionById (discussion_id d) # more"
      "\<forall>c\<in>set more. \<not> isGetDiscussionById c \<and> \<not> isCreateDiscussion c"
      using resolveComment_calls by blast
    then have "\<forall>c\<in>set (snd (main i rs p)). \<not> isCreateDiscussion c"
      unfolding b cs by auto
    then show ?thesis using a b by blast
  qed
  have created: "take 3 (snd (main i rs p)) = calls @ [create]
              \<and> (\<forall>d. createDiscussion rs (repository_id repository) (category_id cat)
                         (''Releases - '' @ cycleName)
                         (marker @ ''\<newline>\<newline><!-- START-RELEASE-TOC -->\<newline><!-- END-RELEASE-TOC -->'')
                       = Inr d
                    \<longrightarrow> main i rs p = resolveComment rs p d (calls @ [create]))"
    if no: "\<forall>d\<in>set searchResult. \<not> includes_string (discussion_body d) marker"
  proof -
    have f: "find (\<lambda>node. includes_string (discussion_body node) marker) searchResult = None"
      using no by (simp add: find_none)
    have r: "main i rs p =
        (case createDiscussion rs (repository_id repository) (category_id cat)
                (''Releases - '' @ cycleName)
                (marker @ ''\<newline>\<newline><!-- START-RELEASE-TOC -->\<newline><!-- END-RELEASE-TOC -->'') of
           Inl e \<Rightarrow> (Failed (message e), calls @ [create])
         | Inr d \<Rightarrow> resolveComment rs p d (calls @ [create]))"
      unfolding m resolveDiscussion_def f cr
      by (simp add: Let_def newDiscussionBody_def split: sum.splits)
    have t: "take 3 (snd (main i rs p)) = calls @ [create]"
    proof (cases "createDiscussion rs (repository_id repository) (category_id cat)
                (''Releases - '' @ cycleName)
                (marker @ ''\<newline>\<newline><!-- START-RELEASE-TOC -->\<newline><!-- END-RELEASE-TOC -->'')")
      case (Inl e)
      then show ?thesis unfolding r cs by simp
    next
      case (Inr d)
      obtain more where
        "snd (resolveComment rs p d (calls @ [create]))
         = (calls @ [create]) @ GetDiscussionById (discussion_id d) # more"
        using resolveComment_calls by blast
      then show ?thesis unfolding r Inr cs by simp
    qed
    show ?thesis using t r by simp
  qed
  show ?thesis using found created by blast
qed

text \<open>
  The theorem at the example release: a search without results, where the discussion
  \<^verbatim>\<open>Releases - 2024 Week 11\<close> is created, and a search that returns the discussion of the
  week.
\<close>

theorem discussion_found_or_created_witness:
  "\<not> draft (release (examplePayload ''created'' False))
   \<and> take 3 (snd (main exampleInputs (exampleStore [] []) (examplePayload ''created'' False)))
       = [GetRepository ''magicbell-io'' (Some ''community'') ''product-changelog'',
          SearchDiscussions ''magicbell-io/community'' ''Product Changelog''
            1710115200000 1710720000000 ''<!-- release-cycle:2024W11 -->'',
          CreateDiscussion ''R_1'' ''DC_1'' ''Releases - 2024 Week 11''
            ''<!-- release-cycle:2024W11 -->\<newline>\<newline><!-- START-RELEASE-TOC -->\<newline><!-- END-RELEASE-TOC -->'']
   \<and> includes_string (discussion_body exampleDiscussion) ''<!-- release-cycle:2024W11 -->''
   \<and> main exampleInputs (exampleStore [exampleDiscussion] []) (examplePayload ''created'' False)
       = resolveComment (exampleStore [exampleDiscussion] []) (examplePayload ''created'' False)
           exampleDiscussion
           [GetRepository ''magicbell-io'' (Some ''community'') ''product-changelog'',
            SearchDiscussions ''magicbell-io/community'' ''Product Changelog''
              1710115200000 1710720000000 ''<!-- release-cycle:2024W11 -->'']
   \<and> filter isCreateDiscussion
        (snd (main exampleInputs (exampleStore [exampleDiscussion] [])
               (examplePayload ''created'' False))) = []"
proof -
  define P where "P = examplePayload ''created'' False"
  define cat where "cat = \<lparr>category_id = ''DC_1'', category_name = ''Product Changelog'',
                            category_slug = ''product-changelog''\<rparr>"
  define calls where "calls =
    [GetRepository ''magicbell-io'' (Some ''community'') ''product-changelog'',
     SearchDiscussions ''magicbell-io/community'' ''Product Changelog''
       1710115200000 1710720000000 ''<!-- release-cycle:2024W11 -->'']"
  have nd: "\<not> draft (release P)"
    unfolding P_def by (simp add: example_facts)
  have rp: "getRepository (exampleStore found []) (owner exampleInputs) (repo exampleInputs)
              (input_category exampleInputs) = Inr exampleRepository" for found
    by (rule example_store)
  have ct: "discussionCategory exampleRepository = Some cat"
    unfolding cat_def by (simp add: exampleRepository_def)
  have mk: "''<!-- release-cycle:2024W11 -->''
            = cycleIdentifier (getCycleId (published_at (release P)) (cycleLength exampleInputs))"
    unfolding P_def by (simp add: example_facts example_cycle)
  have nm: "''2024 Week 11''
            = getCycleName (monthLong exampleInputs) (published_at (release P))
                (cycleLength exampleInputs)"
    unfolding P_def by (simp add: example_facts example_cycle)
  have cs: "calls = [GetRepository (owner exampleInputs) (repo exampleInputs)
                       (input_category exampleInputs),
                     SearchDiscussions (input_repo exampleInputs) (category_name cat)
                       (cycle_from (cycleLength exampleInputs) (published_at (release P)))
                       (cycle_to (cycleLength exampleInputs) (published_at (release P)))
                       ''<!-- release-cycle:2024W11 -->'']"
    unfolding P_def calls_def cat_def by (simp add: example_facts example_cycle)
  have sr: "searchDiscussions (exampleStore found []) (input_repo exampleInputs)
              (category_name cat)
              (cycle_from (cycleLength exampleInputs) (published_at (release P)))
              (cycle_to (cycleLength exampleInputs) (published_at (release P)))
              ''<!-- release-cycle:2024W11 -->'' = Inr found" for found
    by (rule example_store)
  have inc: "includes_string (discussion_body exampleDiscussion) ''<!-- release-cycle:2024W11 -->''"
    by code_simp
  note created = discussion_found_or_created [OF nd rp ct mk nm cs sr refl, of "[]"]
  note found = discussion_found_or_created [OF nd rp ct mk nm cs sr refl, of "[exampleDiscussion]"]
  have a: "take 3 (snd (main exampleInputs (exampleStore [] []) P))
           = calls @ [CreateDiscussion (repository_id exampleRepository) (category_id cat)
               (''Releases - '' @ ''2024 Week 11'')
               (''<!-- release-cycle:2024W11 -->''
                @ ''\<newline>\<newline><!-- START-RELEASE-TOC -->\<newline><!-- END-RELEASE-TOC -->'')]"
    using created by simp
  have b: "main exampleInputs (exampleStore [exampleDiscussion] []) P
             = resolveComment (exampleStore [exampleDiscussion] []) P exampleDiscussion calls
           \<and> (\<forall>c\<in>set (snd (main exampleInputs (exampleStore [exampleDiscussion] []) P)).
                 \<not> isCreateDiscussion c)"
    using found inc by simp
  then have c: "filter isCreateDiscussion
                  (snd (main exampleInputs (exampleStore [exampleDiscussion] []) P)) = []"
    by (simp add: filter_empty_conv)
  show ?thesis
    using nd a b c inc unfolding P_def calls_def cat_def
    by (simp add: exampleRepository_def)
qed
section \<open>Delete requests\<close>

text \<open>
  Let the action be \<^verbatim>\<open>deleted\<close> and the comments have been fetched. If a comment includes
  the release marker, the call after the fetch deletes such a comment, and when the store
  has deleted it the table of contents is reconciled with the list without the comments
  of that identifier.
\<close>

lemma delete_request_found:
  assumes del: "action p = ''deleted''"
    and fetched: "getDiscussionById rs (discussion_id d) = Inr comments"
    and mk: "marker = releaseIdentifier (release_name (release p)) (tag_name (release p))"
    and some: "\<exists>c\<in>set comments. includes_string (comment_body c) marker"
  shows "\<exists>c\<in>set comments. includes_string (comment_body c) marker
           \<and> take (length calls + 2) (snd (resolveComment rs p d calls))
               = calls @ [GetDiscussionById (discussion_id d),
                          DeleteDiscussionComment (comment_id c)]
           \<and> (deleteDiscussionComment rs (comment_id c) = Inr ()
              \<longrightarrow> resolveComment rs p d calls
                  = reconcileToc rs d
                      (filter (\<lambda>x. comment_id x \<noteq> comment_id c) comments)
                      (calls @ [GetDiscussionById (discussion_id d),
                                DeleteDiscussionComment (comment_id c)]))"
proof -
  from some
  have "find (\<lambda>node. includes_string (comment_body node) marker) comments \<noteq> None"
    by (simp add: find_none)
  then obtain c where c: "find (\<lambda>node. includes_string (comment_body node) marker) comments = Some c"
    by blast
  have a: "c \<in> set comments \<and> includes_string (comment_body c) marker"
    using find_includes [OF c] .
  show ?thesis
  proof (cases "deleteDiscussionComment rs (comment_id c)")
    case (Inl e)
    have "mutateComments rs (action p = ''deleted'')
            (find (\<lambda>node. includes_string (comment_body node)
                     (releaseIdentifier (release_name (release p)) (tag_name (release p))))
               comments)
            comments (discussion_id d) (commentBody p)
          = (Inl e, [DeleteDiscussionComment (comment_id c)])"
      unfolding mutateComments_def mk [symmetric] c using del Inl by simp
    then have "resolveComment rs p d calls
          = (Failed (message e), calls @ [GetDiscussionById (discussion_id d),
                                          DeleteDiscussionComment (comment_id c)])"
      using resolveComment_fetched [OF fetched, of p] by simp
    then show ?thesis using a Inl by auto
  next
    case (Inr u)
    have "mutateComments rs (action p = ''deleted'')
            (find (\<lambda>node. includes_string (comment_body node)
                     (releaseIdentifier (release_name (release p)) (tag_name (release p))))
               comments)
            comments (discussion_id d) (commentBody p)
          = (Inr (filter (\<lambda>x. comment_id x \<noteq> comment_id c) comments),
             [DeleteDiscussionComment (comment_id c)])"
      unfolding mutateComments_def mk [symmetric] c using del Inr by simp
    then have r: "resolveComment rs p d calls
          = reconcileToc rs d (filter (\<lambda>x. comment_id x \<noteq> comment_id c) comments)
              (calls @ [GetDiscussionById (discussion_id d),
                        DeleteDiscussionComment (comment_id c)])"
      using resolveComment_fetched [OF fetched, of p] by simp
    obtain more where
      "snd (reconcileToc rs d (filter (\<lambda>x. comment_id x \<noteq> comment_id c) comments)
              (calls @ [GetDiscussionById (discussion_id d),
                        DeleteDiscussionComment (comment_id c)]))
       = (calls @ [GetDiscussionById (discussion_id d),
                   DeleteDiscussionComment (comment_id c)]) @ more"
      using reconcileToc_calls by blast
    then have "take (length calls + 2) (snd (resolveComment rs p d calls))
              = calls @ [GetDiscussionById (discussion_id d), DeleteDiscussionComment (comment_id c)]"
      unfolding r by simp
    then show ?thesis using a r by blast
  qed
qed

text \<open>
  If no comment includes the marker, no comment is deleted and the table of contents is
  reconciled with the list as fetched. What follows is the work of the table of
  contents: if no release of the list has a name that \<^verbatim>\<open>Object.prototype\<close> has, and the
  update of the discussion does not throw, the invocation succeeds; if a release has
  such a name, the invocation fails after the fetch.
\<close>

lemma delete_request_not_found:
  assumes del: "action p = ''deleted''"
    and fetched: "getDiscussionById rs (discussion_id d) = Inr comments"
    and mk: "marker = releaseIdentifier (release_name (release p)) (tag_name (release p))"
    and no: "\<forall>c\<in>set comments. \<not> includes_string (comment_body c) marker"
  shows "resolveComment rs p d calls
         = reconcileToc rs d comments (calls @ [GetDiscussionById (discussion_id d)])"
    and "\<forall>x\<in>set (snd (resolveComment rs p d calls)).
           isDeleteDiscussionComment x \<longrightarrow> x \<in> set calls"
    and "(\<forall>e\<in>set (markedReleases comments). item_name e \<notin> set ObjectPrototypeNames)
         \<and> (\<forall>b. updateDiscussion rs (discussion_id d) b = Inr ())
         \<longrightarrow> fst (resolveComment rs p d calls) = Succeeded"
    and "(\<exists>e\<in>set (markedReleases comments). item_name e \<in> set ObjectPrototypeNames)
         \<longrightarrow> resolveComment rs p d calls
             = (Failed ''releases[name].push is not a function'',
                calls @ [GetDiscussionById (discussion_id d)])"
proof -
  from no have f: "find (\<lambda>node. includes_string (comment_body node) marker) comments = None"
    by (simp add: find_none)
  have "mutateComments rs (action p = ''deleted'')
            (find (\<lambda>node. includes_string (comment_body node)
                     (releaseIdentifier (release_name (release p)) (tag_name (release p))))
               comments)
            comments (discussion_id d) (commentBody p)
          = (Inr comments, [])"
    unfolding mutateComments_def mk [symmetric] f using del by simp
  then show r: "resolveComment rs p d calls
          = reconcileToc rs d comments (calls @ [GetDiscussionById (discussion_id d)])"
    using resolveComment_fetched [OF fetched, of p] by simp
  obtain more where more:
    "snd (reconcileToc rs d comments (calls @ [GetDiscussionById (discussion_id d)]))
       = (calls @ [GetDiscussionById (discussion_id d)]) @ more"
    "more = [] \<or> (\<exists>b. more = [UpdateDiscussion (discussion_id d) b])"
    using reconcileToc_calls by blast
  show "\<forall>x\<in>set (snd (resolveComment rs p d calls)). isDeleteDiscussionComment x \<longrightarrow> x \<in> set calls"
    unfolding r more(1) using more(2) by auto
  show "(\<forall>e\<in>set (markedReleases comments). item_name e \<notin> set ObjectPrototypeNames)
         \<and> (\<forall>b. updateDiscussion rs (discussion_id d) b = Inr ())
         \<longrightarrow> fst (resolveComment rs p d calls) = Succeeded"
  proof
    assume ok: "(\<forall>e\<in>set (markedReleases comments). item_name e \<notin> set ObjectPrototypeNames)
                \<and> (\<forall>b. updateDiscussion rs (discussion_id d) b = Inr ())"
    then have "buildToc comments = Inr (renderTocBlock (markedReleases comments))"
      using buildToc_rendered by blast
    then show "fst (resolveComment rs p d calls) = Succeeded"
      unfolding r reconcileToc_def using ok by (simp add: Let_def)
  qed
  show "(\<exists>e\<in>set (markedReleases comments). item_name e \<in> set ObjectPrototypeNames)
         \<longrightarrow> resolveComment rs p d calls
             = (Failed ''releases[name].push is not a function'',
                calls @ [GetDiscussionById (discussion_id d)])"
  proof
    assume "\<exists>e\<in>set (markedReleases comments). item_name e \<in> set ObjectPrototypeNames"
    then have "buildToc comments = Inl (Error ''releases[name].push is not a function'')"
      by (rule buildToc_prototype)
    then show "resolveComment rs p d calls
             = (Failed ''releases[name].push is not a function'',
                calls @ [GetDiscussionById (discussion_id d)])"
      unfolding r reconcileToc_def by simp
  qed
qed

text \<open>
  Claim C4 at an invocation the action can meet: the release \<^verbatim>\<open>mypkg@v1.2.0\<close> is deleted,
  and the discussion of its week holds one comment, the comment of a release named
  \<^verbatim>\<open>constructor\<close>. No comment includes the marker of \<^verbatim>\<open>mypkg@v1.2.0\<close> and no comment is
  deleted; then the loop of the table of contents throws on the name \<^verbatim>\<open>constructor\<close>,
  and the invocation fails where the claim has it succeed. By \<open>delete_request_not_found\<close>
  this is so for every delete request without a match in a list with such a name, and
  the request succeeds for every other list when the update of the discussion does not
  throw.
\<close>

theorem delete_without_match_fails_on_prototype_name:
  "filter (\<lambda>c. includes_string (comment_body c) (releaseIdentifier ''mypkg'' ''v1.2.0''))
     [exampleComment ''C_1'' ''constructor'' ''v1.0.0''] = []
   \<and> main exampleInputs
       (exampleStore [exampleDiscussion] [exampleComment ''C_1'' ''constructor'' ''v1.0.0''])
       (examplePayload ''deleted'' False)
     = (Failed ''releases[name].push is not a function'',
        [GetRepository ''magicbell-io'' (Some ''community'') ''product-changelog'',
         SearchDiscussions ''magicbell-io/community'' ''Product Changelog''
           1710115200000 1710720000000 ''<!-- release-cycle:2024W11 -->'',
         GetDiscussionById ''D_1''])"
  by code_simp

text \<open>
  The same request where the discussion holds the comment of \<^verbatim>\<open>mypkg@v1.3.0\<close> only:
  nothing is deleted, the table of contents is written, and the invocation succeeds.
\<close>

lemma delete_without_match_example:
  "main exampleInputs
     (exampleStore [exampleDiscussion] [exampleComment ''C_2'' ''mypkg'' ''v1.3.0''])
     (examplePayload ''deleted'' False)
   = (Succeeded,
      [GetRepository ''magicbell-io'' (Some ''community'') ''product-changelog'',
       SearchDiscussions ''magicbell-io/community'' ''Product Changelog''
         1710115200000 1710720000000 ''<!-- release-cycle:2024W11 -->'',
       GetDiscussionById ''D_1'',
       UpdateDiscussion ''D_1''
         ''<!-- release-cycle:2024W11 -->\<newline>\<newline><!-- START-RELEASE-TOC -->\<newline>**Releases**\<newline>\<newline>- [**mypkg**: v1.3.0](https://example.test/d/1#C_2)\<newline><!-- END-RELEASE-TOC -->''])"
  by code_simp
section \<open>Writing the body back\<close>

text \<open>
  Claim C7. Once the table of contents is built and spliced into the body, the
  discussion is updated with the new body if the new and the old body differ after all
  white space is removed from both, and only then: if they are equal the invocation
  succeeds with the calls it had made before.
\<close>

theorem discussion_updated_iff_changed:
  assumes "buildToc comments = Inr toc"
    and "newBody = replaceTocRegion (discussion_body d) toc"
  shows "(stripWhiteSpace newBody \<noteq> stripWhiteSpace (discussion_body d)
            \<longrightarrow> snd (reconcileToc rs d comments calls)
                = calls @ [UpdateDiscussion (discussion_id d) newBody])
       \<and> (stripWhiteSpace newBody = stripWhiteSpace (discussion_body d)
            \<longrightarrow> reconcileToc rs d comments calls = (Succeeded, calls))"
  unfolding reconcileToc_def using assms
  by (simp add: Let_def split: sum.splits)

text \<open>
  The theorem at the discussion of the week with an empty table, which is updated, and at
  a discussion whose table differs from the new one in white space only, which is not.
\<close>

theorem discussion_updated_iff_changed_witness:
  "buildToc [exampleComment ''C_1'' ''mypkg'' ''v1.2.0'']
     = Inr ''**Releases**\<newline>\<newline>- [**mypkg**: v1.2.0](https://example.test/d/1#C_1)''
   \<and> stripWhiteSpace
        (replaceTocRegion (discussion_body exampleDiscussion)
           ''**Releases**\<newline>\<newline>- [**mypkg**: v1.2.0](https://example.test/d/1#C_1)'')
       \<noteq> stripWhiteSpace (discussion_body exampleDiscussion)
   \<and> snd (reconcileToc (exampleStore [] []) exampleDiscussion
             [exampleComment ''C_1'' ''mypkg'' ''v1.2.0''] [])
       = [UpdateDiscussion (discussion_id exampleDiscussion)
            (replaceTocRegion (discussion_body exampleDiscussion)
               ''**Releases**\<newline>\<newline>- [**mypkg**: v1.2.0](https://example.test/d/1#C_1)'')]
   \<and> stripWhiteSpace
        (replaceTocRegion
           ''<!-- START-RELEASE-TOC -->  **Releases** - [**mypkg**: v1.2.0](https://example.test/d/1#C_1)<!-- END-RELEASE-TOC -->''
           ''**Releases**\<newline>\<newline>- [**mypkg**: v1.2.0](https://example.test/d/1#C_1)'')
       = stripWhiteSpace
           ''<!-- START-RELEASE-TOC -->  **Releases** - [**mypkg**: v1.2.0](https://example.test/d/1#C_1)<!-- END-RELEASE-TOC -->''
   \<and> reconcileToc (exampleStore [] [])
        (exampleDiscussion\<lparr>discussion_body :=
           ''<!-- START-RELEASE-TOC -->  **Releases** - [**mypkg**: v1.2.0](https://example.test/d/1#C_1)<!-- END-RELEASE-TOC -->''\<rparr>)
        [exampleComment ''C_1'' ''mypkg'' ''v1.2.0''] []
       = (Succeeded, [])"
proof -
  define T where "T = ''**Releases**\<newline>\<newline>- [**mypkg**: v1.2.0](https://example.test/d/1#C_1)''"
  define B where "B = ''<!-- START-RELEASE-TOC -->  **Releases** - [**mypkg**: v1.2.0](https://example.test/d/1#C_1)<!-- END-RELEASE-TOC -->''"
  define C where "C = exampleComment ''C_1'' ''mypkg'' ''v1.2.0''"
  have t: "buildToc [C] = Inr T"
    unfolding C_def T_def by (rule example_tocs)
  have differ: "stripWhiteSpace (replaceTocRegion (discussion_body exampleDiscussion) T)
                \<noteq> stripWhiteSpace (discussion_body exampleDiscussion)"
    unfolding T_def by code_simp
  have same: "stripWhiteSpace (replaceTocRegion B T) = stripWhiteSpace B"
    unfolding T_def B_def by code_simp
  have b: "discussion_body (exampleDiscussion\<lparr>discussion_body := B\<rparr>) = B"
    by simp
  have a1: "snd (reconcileToc (exampleStore [] []) exampleDiscussion [C] [])
            = [] @ [UpdateDiscussion (discussion_id exampleDiscussion)
                 (replaceTocRegion (discussion_body exampleDiscussion) T)]"
    using discussion_updated_iff_changed [OF t refl, of exampleDiscussion "exampleStore [] []" "[]"]
      differ by blast
  have a2: "reconcileToc (exampleStore [] []) (exampleDiscussion\<lparr>discussion_body := B\<rparr>) [C] []
            = (Succeeded, [])"
    using discussion_updated_iff_changed [OF t refl,
        of "exampleDiscussion\<lparr>discussion_body := B\<rparr>" "exampleStore [] []" "[]"]
      same unfolding b by blast
  show ?thesis
    using t differ same a1 a2 unfolding T_def B_def C_def by simp
qed
section \<open>The comment list after the mutation\<close>

text \<open>
  Claim C10. A comment that was added is appended to the list and, its identifier being
  new, is there once. A comment that was updated is replaced at its index, and the list
  holds its identifier once, when the identifiers of the fetched comments are distinct
  and the store returns the comment under its identifier. After a deletion the list
  holds no comment of the identifier. The table of contents is reconciled with the list
  so changed, and an invocation fetches the comments at most once.
\<close>

theorem comment_list_reflects_mutation:
  "(\<not> isDelete \<and> addDiscussionComment rs did body = Inr c'
      \<longrightarrow> mutateComments rs isDelete None comments did body
            = (Inr (comments @ [c']), [AddDiscussionComment did body])
        \<and> (comment_id c' \<notin> comment_id ` set comments
           \<longrightarrow> length (filter (\<lambda>x. comment_id x = comment_id c') (comments @ [c'])) = 1))
   \<and> (\<not> isDelete \<and> c \<in> set comments \<and> distinct (map comment_id comments)
        \<and> updateDiscussionComment rs (comment_id c) body = Inr c'
        \<and> comment_id c' = comment_id c
      \<longrightarrow> (\<exists>k<length comments. comments ! k = c
             \<and> mutateComments rs isDelete (Some c) comments did body
                 = (Inr (comments[k := c']), [UpdateDiscussionComment (comment_id c) body])
             \<and> length (filter (\<lambda>x. comment_id x = comment_id c) (comments[k := c'])) = 1))
   \<and> (isDelete \<and> deleteDiscussionComment rs (comment_id c) = Inr ()
      \<longrightarrow> mutateComments rs isDelete (Some c) comments did body
            = (Inr (filter (\<lambda>x. comment_id x \<noteq> comment_id c) comments),
               [DeleteDiscussionComment (comment_id c)])
        \<and> filter (\<lambda>x. comment_id x = comment_id c)
             (filter (\<lambda>x. comment_id x \<noteq> comment_id c) comments) = [])
   \<and> (getDiscussionById rs (discussion_id d) = Inr comments
        \<and> mutateComments rs (action p = ''deleted'')
             (find (\<lambda>node. includes_string (comment_body node)
                      (releaseIdentifier (release_name (release p)) (tag_name (release p))))
                comments)
             comments (discussion_id d) (commentBody p) = (Inr comments', cs)
      \<longrightarrow> resolveComment rs p d calls
            = reconcileToc rs d comments' (calls @ GetDiscussionById (discussion_id d) # cs))
   \<and> length (filter isGetDiscussionById (snd (main i rs p))) \<le> 1"
proof (intro conjI impI)
  assume a: "\<not> isDelete \<and> addDiscussionComment rs did body = Inr c'"
  then show "mutateComments rs isDelete None comments did body
            = (Inr (comments @ [c']), [AddDiscussionComment did body])"
    by (simp add: mutateComments_def)
  assume "comment_id c' \<notin> comment_id ` set comments"
  then have "\<forall>x\<in>set comments. comment_id x \<noteq> comment_id c'"
    by (metis imageI)
  then have "filter (\<lambda>x. comment_id x = comment_id c') comments = []"
    by (simp add: filter_empty_conv)
  then show "length (filter (\<lambda>x. comment_id x = comment_id c') (comments @ [c'])) = 1"
    by simp
next
  assume u: "\<not> isDelete \<and> c \<in> set comments \<and> distinct (map comment_id comments)
        \<and> updateDiscussionComment rs (comment_id c) body = Inr c'
        \<and> comment_id c' = comment_id c"
  then obtain k where k: "k < length comments" "comments ! k = c"
    by (auto simp: in_set_conv_nth)
  have m: "map (\<lambda>x. if comment_id x = comment_id c' then c' else x) comments = comments[k := c']"
    using u k by (intro replace_by_key) simp_all
  have r: "mutateComments rs isDelete (Some c) comments did body
           = (Inr (comments[k := c']), [UpdateDiscussionComment (comment_id c) body])"
    using u m by (simp add: mutateComments_def)
  have "map comment_id (comments[k := c']) = map comment_id comments"
    using u k by (simp add: map_update list_update_same_conv)
  then have "distinct (map comment_id (comments[k := c']))"
    using u by simp
  moreover have "c' \<in> set (comments[k := c'])"
    using k(1) by (simp add: set_update_memI)
  ultimately have "length (filter (\<lambda>x. comment_id x = comment_id c') (comments[k := c'])) = 1"
    by (rule filter_key_once)
  then have "length (filter (\<lambda>x. comment_id x = comment_id c) (comments[k := c'])) = 1"
    using u by simp
  then show "\<exists>k<length comments. comments ! k = c
             \<and> mutateComments rs isDelete (Some c) comments did body
                 = (Inr (comments[k := c']), [UpdateDiscussionComment (comment_id c) body])
             \<and> length (filter (\<lambda>x. comment_id x = comment_id c) (comments[k := c'])) = 1"
    using k r by blast
next
  assume e: "isDelete \<and> deleteDiscussionComment rs (comment_id c) = Inr ()"
  then show "mutateComments rs isDelete (Some c) comments did body
            = (Inr (filter (\<lambda>x. comment_id x \<noteq> comment_id c) comments),
               [DeleteDiscussionComment (comment_id c)])"
    by (simp add: mutateComments_def)
  show "filter (\<lambda>x. comment_id x = comment_id c)
             (filter (\<lambda>x. comment_id x \<noteq> comment_id c) comments) = []"
    by (simp add: filter_empty_conv)
next
  assume "getDiscussionById rs (discussion_id d) = Inr comments
        \<and> mutateComments rs (action p = ''deleted'')
             (find (\<lambda>node. includes_string (comment_body node)
                      (releaseIdentifier (release_name (release p)) (tag_name (release p))))
                comments)
             comments (discussion_id d) (commentBody p) = (Inr comments', cs)"
  then show "resolveComment rs p d calls
            = reconcileToc rs d comments' (calls @ GetDiscussionById (discussion_id d) # cs)"
    using resolveComment_fetched [of rs d comments p "Inr comments'" cs calls] by simp
next
  show "length (filter isGetDiscussionById (snd (main i rs p))) \<le> 1"
    by (rule main_fetches_once)
qed

text \<open>The theorem at an addition, an update and a deletion in the example store.\<close>

theorem comment_list_reflects_mutation_witness:
  "addDiscussionComment (exampleStore [] []) ''D_1'' ''body''
     = Inr \<lparr>comment_id = ''C_new'', comment_body = ''body'',
            comment_url = ''https://example.test/d/1#C_new''\<rparr>
   \<and> mutateComments (exampleStore [] []) False None
        [exampleComment ''C_1'' ''mypkg'' ''v1.2.0''] ''D_1'' ''body''
       = (Inr [exampleComment ''C_1'' ''mypkg'' ''v1.2.0'',
               \<lparr>comment_id = ''C_new'', comment_body = ''body'',
                comment_url = ''https://example.test/d/1#C_new''\<rparr>],
          [AddDiscussionComment ''D_1'' ''body''])
   \<and> distinct (map comment_id [exampleComment ''C_1'' ''mypkg'' ''v1.2.0'',
                                exampleComment ''C_2'' ''mypkg'' ''v1.3.0''])
   \<and> fst (mutateComments (exampleStore [] []) False
            (Some (exampleComment ''C_1'' ''mypkg'' ''v1.2.0''))
            [exampleComment ''C_1'' ''mypkg'' ''v1.2.0'',
             exampleComment ''C_2'' ''mypkg'' ''v1.3.0''] ''D_1'' ''body'')
       = Inr [\<lparr>comment_id = ''C_1'', comment_body = ''body'',
               comment_url = ''https://example.test/d/1#C_1''\<rparr>,
              exampleComment ''C_2'' ''mypkg'' ''v1.3.0'']
   \<and> fst (mutateComments (exampleStore [] []) True
            (Some (exampleComment ''C_1'' ''mypkg'' ''v1.2.0''))
            [exampleComment ''C_1'' ''mypkg'' ''v1.2.0'',
             exampleComment ''C_2'' ''mypkg'' ''v1.3.0''] ''D_1'' ''body'')
       = Inr [exampleComment ''C_2'' ''mypkg'' ''v1.3.0'']
   \<and> length (filter isGetDiscussionById
        (snd (main exampleInputs (exampleStore [exampleDiscussion] [])
               (examplePayload ''created'' False)))) \<le> 1"
proof -
  define S where "S = exampleStore [] []"
  define C1 where "C1 = exampleComment ''C_1'' ''mypkg'' ''v1.2.0''"
  define C2 where "C2 = exampleComment ''C_2'' ''mypkg'' ''v1.3.0''"
  define N where "N = \<lparr>comment_id = ''C_new'', comment_body = ''body'',
                        comment_url = ''https://example.test/d/1#C_new''\<rparr>"
  define U where "U = \<lparr>comment_id = ''C_1'', comment_body = ''body'',
                        comment_url = ''https://example.test/d/1#C_1''\<rparr>"
  have ids: "comment_id C1 = ''C_1''" "comment_id C2 = ''C_2''" "comment_id U = ''C_1''"
    unfolding C1_def C2_def U_def by (simp_all add: example_comments)
  have ne: "C1 \<noteq> C2"
    using ids by auto
  have add: "addDiscussionComment S ''D_1'' ''body'' = Inr N"
    unfolding S_def N_def by (rule example_store)
  have upd: "updateDiscussionComment S (comment_id C1) ''body'' = Inr U"
    unfolding S_def U_def ids by (simp add: example_store)
  have del: "deleteDiscussionComment S (comment_id C1) = Inr ()"
    unfolding S_def by (rule example_store)
  have dist: "distinct (map comment_id [C1, C2])"
    using ids by simp
  note inst = comment_list_reflects_mutation
    [where did = "''D_1''" and body = "''body''" and c = C1 and d = exampleDiscussion
       and p = "examplePayload ''created'' False" and comments' = "[]" and cs = "[]"
       and calls = "[]" and i = exampleInputs]
  have pre1: "\<not> False \<and> addDiscussionComment S ''D_1'' ''body'' = Inr N"
    using add by simp
  have a: "mutateComments S False None [C1] ''D_1'' ''body''
           = (Inr ([C1] @ [N]), [AddDiscussionComment ''D_1'' ''body''])"
    by (rule inst [where isDelete = False and rs = S and c' = N and comments = "[C1]",
          THEN conjunct1, THEN mp, OF pre1, THEN conjunct1])
  have pre2: "\<not> False \<and> C1 \<in> set [C1, C2] \<and> distinct (map comment_id [C1, C2])
        \<and> updateDiscussionComment S (comment_id C1) ''body'' = Inr U
        \<and> comment_id U = comment_id C1"
    using dist upd ids by simp
  have "\<exists>k<length [C1, C2]. [C1, C2] ! k = C1
             \<and> mutateComments S False (Some C1) [C1, C2] ''D_1'' ''body''
                 = (Inr ([C1, C2][k := U]), [UpdateDiscussionComment (comment_id C1) ''body''])
             \<and> length (filter (\<lambda>x. comment_id x = comment_id C1) ([C1, C2][k := U])) = 1"
    by (rule inst [where isDelete = False and rs = S and c' = U and comments = "[C1, C2]",
          THEN conjunct2, THEN conjunct1, THEN mp, OF pre2])
  then obtain k where k: "k < length [C1, C2]" "[C1, C2] ! k = C1"
    "mutateComments S False (Some C1) [C1, C2] ''D_1'' ''body''
     = (Inr ([C1, C2][k := U]), [UpdateDiscussionComment (comment_id C1) ''body''])"
    by blast
  have "k = 0"
    using k(1,2) ne by (cases k) auto
  then have b: "fst (mutateComments S False (Some C1) [C1, C2] ''D_1'' ''body'') = Inr [U, C2]"
    using k(3) by simp
  have pre3: "True \<and> deleteDiscussionComment S (comment_id C1) = Inr ()"
    using del by simp
  have "mutateComments S True (Some C1) [C1, C2] ''D_1'' ''body''
        = (Inr (filter (\<lambda>x. comment_id x \<noteq> comment_id C1) [C1, C2]),
           [DeleteDiscussionComment (comment_id C1)])"
    by (rule inst [where isDelete = True and rs = S and c' = U and comments = "[C1, C2]",
          THEN conjunct2, THEN conjunct2, THEN conjunct1, THEN mp, OF pre3, THEN conjunct1])
  then have c: "fst (mutateComments S True (Some C1) [C1, C2] ''D_1'' ''body'') = Inr [C2]"
    using ids by simp
  have d: "length (filter isGetDiscussionById
        (snd (main exampleInputs (exampleStore [exampleDiscussion] [])
               (examplePayload ''created'' False)))) \<le> 1"
    by (rule inst [where isDelete = False and rs = "exampleStore [exampleDiscussion] []"
          and c' = N and comments = "[C1]",
          THEN conjunct2, THEN conjunct2, THEN conjunct2, THEN conjunct2])
  show ?thesis
    using add a dist b c d unfolding S_def C1_def C2_def N_def U_def by simp
qed
section \<open>Two invocations from end to end\<close>

text \<open>
  The first release of week 11 of 2024, with the example store and a search that finds
  nothing: the discussion of the week is created, the comment is added, and the table of
  contents is written into the new discussion.
\<close>

lemma scenario_first_release:
  "main exampleInputs (exampleStore [] []) (examplePayload ''created'' False)
   = (Succeeded,
      [GetRepository ''magicbell-io'' (Some ''community'') ''product-changelog'',
       SearchDiscussions ''magicbell-io/community'' ''Product Changelog''
         1710115200000 1710720000000 ''<!-- release-cycle:2024W11 -->'',
       CreateDiscussion ''R_1'' ''DC_1'' ''Releases - 2024 Week 11''
         ''<!-- release-cycle:2024W11 -->\<newline>\<newline><!-- START-RELEASE-TOC -->\<newline><!-- END-RELEASE-TOC -->'',
       GetDiscussionById ''D_new'',
       AddDiscussionComment ''D_new''
         ''<!-- release-item:mypkg@v1.2.0 -->\<newline>\<newline>### [mypkg@v1.2.0](https://example.test/releases/v1.2.0)\<newline>\<newline>Fixes.'',
       UpdateDiscussion ''D_new''
         ''<!-- release-cycle:2024W11 -->\<newline>\<newline><!-- START-RELEASE-TOC -->\<newline>**Releases**\<newline>\<newline>- [**mypkg**: v1.2.0](https://example.test/d/1#C_new)\<newline><!-- END-RELEASE-TOC -->''])"
  by code_simp

text \<open>
  The release \<^verbatim>\<open>mypkg@v1.2.0\<close> is deleted from a discussion that holds it and
  \<^verbatim>\<open>mypkg@v1.3.0\<close>: its comment is deleted, and the table lists the other release only.
\<close>

lemma scenario_release_deleted:
  "main exampleInputs
     (exampleStore [exampleDiscussion]
        [exampleComment ''C_1'' ''mypkg'' ''v1.2.0'', exampleComment ''C_2'' ''mypkg'' ''v1.3.0''])
     (examplePayload ''deleted'' False)
   = (Succeeded,
      [GetRepository ''magicbell-io'' (Some ''community'') ''product-changelog'',
       SearchDiscussions ''magicbell-io/community'' ''Product Changelog''
         1710115200000 1710720000000 ''<!-- release-cycle:2024W11 -->'',
       GetDiscussionById ''D_1'',
       DeleteDiscussionComment ''C_1'',
       UpdateDiscussion ''D_1''
         ''<!-- release-cycle:2024W11 -->\<newline>\<newline><!-- START-RELEASE-TOC -->\<newline>**Releases**\<newline>\<newline>- [**mypkg**: v1.3.0](https://example.test/d/1#C_2)\<newline><!-- END-RELEASE-TOC -->''])"
  by code_simp


end
